theory Spec2Isabelle
  imports Complex_Main
begin

section \<open>Strings and the input stream\<close>

text \<open>
  A \<open>std::string\<close> is a \<open>char list\<close>.  \<open>npos\<close> is the value \<open>find\<close> returns when
  the character is absent (the largest \<open>size_t\<close>); every string of the program
  is far shorter, so the source's test \<open>find(c) >= size()\<close> is "absent".
\<close>

definition npos :: nat where
  "npos = 2 ^ 64 - 1"

text \<open>\<open>s.find(c)\<close> and \<open>s.find_first_of(c)\<close> for a single character: the first index.\<close>

fun find_from :: "string \<Rightarrow> char \<Rightarrow> nat \<Rightarrow> nat" where
  "find_from [] c i = npos"
| "find_from (d # s) c i = (if d = c then i else find_from s c (Suc i))"

definition str_find :: "string \<Rightarrow> char \<Rightarrow> nat" where
  "str_find s c = find_from s c 0"

text \<open>\<open>s.substr(pos, n)\<close>, for \<open>pos \<le> size\<close>.\<close>

definition substr :: "string \<Rightarrow> nat \<Rightarrow> nat \<Rightarrow> string" where
  "substr s pos n = take n (drop pos s)"

definition newline :: char where
  "newline = CHR 0x0A"

text \<open>
  \<open>getline(file, s)\<close> on a stream that is \<open>good()\<close>: the characters up to the next
  newline, which is consumed.  Reaching the end of the text sets \<open>eofbit\<close>
  (and \<open>failbit\<close> when nothing was read), so the stream is no longer good.
  The result is the line, the remaining text and the new \<open>good()\<close>.
\<close>

definition getline :: "string \<Rightarrow> string \<times> string \<times> bool" where
  "getline inp =
     (let s = takeWhile (\<lambda>c. c \<noteq> newline) inp;
          r = dropWhile (\<lambda>c. c \<noteq> newline) inp
      in if r = [] then (s, [], False) else (s, tl r, True))"

lemma getline_measure:
  assumes "getline inp = (s, inp', good')"
  shows "length inp' + (if good' then 1 else 0) < length inp + 1"
proof (cases "dropWhile (\<lambda>c. c \<noteq> newline) inp = []")
  case True
  with assms show ?thesis by (auto simp: getline_def Let_def split: if_splits)
next
  case False
  with assms have "inp' = tl (dropWhile (\<lambda>c. c \<noteq> newline) inp)" and "good'"
    by (auto simp: getline_def Let_def split: if_splits)
  moreover have "length (dropWhile (\<lambda>c. c \<noteq> newline) inp) \<le> length inp"
    by (rule length_dropWhile_le)
  moreover from False have "length (dropWhile (\<lambda>c. c \<noteq> newline) inp) > 0" by simp
  ultimately show ?thesis by simp
qed

definition nb_seq_limits :: nat where
  "nb_seq_limits = 500"

text \<open>
  The reading loop of the constructor \<open>Msa::Msa\<close> (msa.cpp, lines 41 to 54).
  The state is the unread text, \<open>file.good()\<close>, \<open>mali_name\<close>, \<open>mali_seq\<close> and
  \<open>tmp_seq\<close>.  \<open>s[0]\<close> of an empty line is the terminating NUL, not \<open>>\<close>.
\<close>

function read_loop ::
  "string \<Rightarrow> bool \<Rightarrow> string list \<Rightarrow> string list \<Rightarrow> string
     \<Rightarrow> string list \<times> string list \<times> string" where
  "read_loop inp good names seqs tmp_seq =
     (if good \<and> length seqs < nb_seq_limits then
        (case getline inp of (s, inp', good') \<Rightarrow>
           if s \<noteq> [] \<and> hd s = CHR ''>'' then
             let seqs' = (if length names \<noteq> 0 then seqs @ [tmp_seq] else seqs);
                 names' = (if length seqs' < nb_seq_limits
                           then names @ [substr s 1 (str_find s CHR '' '' - 1)]
                           else names)
             in read_loop inp' good' names' seqs' []
           else read_loop inp' good' names seqs (tmp_seq @ s))
      else (names, seqs, tmp_seq))"
  by pat_completeness auto
termination
  apply (relation "measure (\<lambda>(inp, good, names, seqs, tmp_seq). length inp + (if good then 1 else 0))")
    apply simp
   apply (auto dest: getline_measure [OF sym])
  done

declare read_loop.simps [simp del]

text \<open>
  The whole reading part (lines 38 to 57): the loop on the freshly opened
  (hence good) stream, then the push of the last \<open>tmp_seq\<close>.
\<close>

definition read_file :: "string \<Rightarrow> string list \<times> string list" where
  "read_file text =
     (case read_loop text True [] [] [] of (names, seqs, tmp_seq) \<Rightarrow>
        (names, if length seqs < nb_seq_limits then seqs @ [tmp_seq] else seqs))"


section \<open>Floating-point values\<close>

text \<open>
  \<open>float\<close> and \<open>double\<close> values are modelled as a real number or one of the
  IEEE 754 special values.  The operations of this first part give the exact
  real result where it is finite, so \<open>float\<close> and \<open>double\<close> are one type here.
  What they show is where the arithmetic leaves the finite numbers: division
  by zero, the logarithm of zero or of a negative number, and the propagation
  of infinities and NaN; a finite value they compute is the program's value up
  to the rounding of each operation.  The rounding itself is modelled in the
  second part, for the \<open>double\<close> operations of the Jensen-Shannon statistic,
  whose probabilities are meant to sum to one.  There is one zero; wherever
  the program divides by a zero or takes the logarithm of one, that zero is
  \<open>+0\<close> (a converted count, \<open>log(1)\<close> or a square root), which is what \<open>fdiv\<close> and
  \<open>flog\<close> assume.
\<close>

datatype float = Fin real | PInf | NInf | NaN

type_synonym double = float

fun fneg :: "float \<Rightarrow> float" where
  "fneg (Fin a) = Fin (- a)"
| "fneg PInf = NInf"
| "fneg NInf = PInf"
| "fneg NaN = NaN"

fun fadd :: "float \<Rightarrow> float \<Rightarrow> float" where
  "fadd (Fin a) (Fin b) = Fin (a + b)"
| "fadd NaN y = NaN"
| "fadd x NaN = NaN"
| "fadd PInf NInf = NaN"
| "fadd NInf PInf = NaN"
| "fadd PInf y = PInf"
| "fadd x PInf = PInf"
| "fadd NInf y = NInf"
| "fadd x NInf = NInf"

definition fsub :: "float \<Rightarrow> float \<Rightarrow> float" where
  "fsub x y = fadd x (fneg y)"

fun fmul :: "float \<Rightarrow> float \<Rightarrow> float" where
  "fmul (Fin a) (Fin b) = Fin (a * b)"
| "fmul NaN y = NaN"
| "fmul x NaN = NaN"
| "fmul (Fin a) PInf = (if a = 0 then NaN else if 0 < a then PInf else NInf)"
| "fmul (Fin a) NInf = (if a = 0 then NaN else if 0 < a then NInf else PInf)"
| "fmul PInf (Fin b) = (if b = 0 then NaN else if 0 < b then PInf else NInf)"
| "fmul NInf (Fin b) = (if b = 0 then NaN else if 0 < b then NInf else PInf)"
| "fmul PInf PInf = PInf"
| "fmul PInf NInf = NInf"
| "fmul NInf PInf = NInf"
| "fmul NInf NInf = PInf"

fun fdiv :: "float \<Rightarrow> float \<Rightarrow> float" where
  "fdiv (Fin a) (Fin b) =
     (if b \<noteq> 0 then Fin (a / b) else if a = 0 then NaN else if 0 < a then PInf else NInf)"
| "fdiv NaN y = NaN"
| "fdiv x NaN = NaN"
| "fdiv (Fin a) y = Fin 0"
| "fdiv PInf (Fin b) = (if 0 \<le> b then PInf else NInf)"
| "fdiv NInf (Fin b) = (if 0 \<le> b then NInf else PInf)"
| "fdiv x y = NaN"

fun flog :: "float \<Rightarrow> float" where
  "flog (Fin a) = (if 0 < a then Fin (ln a) else if a = 0 then NInf else NaN)"
| "flog PInf = PInf"
| "flog NInf = NaN"
| "flog NaN = NaN"

fun fsqrt :: "float \<Rightarrow> float" where
  "fsqrt (Fin a) = (if 0 \<le> a then Fin (sqrt a) else NaN)"
| "fsqrt PInf = PInf"
| "fsqrt NInf = NaN"
| "fsqrt NaN = NaN"

text \<open>\<open>pow(x, y)\<close> of the C library, with its special cases.\<close>

fun fpow :: "float \<Rightarrow> float \<Rightarrow> float" where
  "fpow x (Fin y) =
     (if y = 0 then Fin 1
      else case x of
        Fin a \<Rightarrow>
          if 0 < a then Fin (a powr y)
          else if a = 0 then (if 0 < y then Fin 0 else PInf)
          else if y \<in> \<int> then Fin (if even \<lfloor>y\<rfloor> then (- a) powr y else - ((- a) powr y))
          else NaN
      | PInf \<Rightarrow> if 0 < y then PInf else Fin 0
      | NInf \<Rightarrow> if 0 < y then (if y \<in> \<int> \<and> odd \<lfloor>y\<rfloor> then NInf else PInf) else Fin 0
      | NaN \<Rightarrow> NaN)"
| "fpow x PInf =
     (case x of
        Fin a \<Rightarrow> if \<bar>a\<bar> = 1 then Fin 1 else if \<bar>a\<bar> < 1 then Fin 0 else PInf
      | PInf \<Rightarrow> PInf
      | NInf \<Rightarrow> PInf
      | NaN \<Rightarrow> NaN)"
| "fpow x NInf =
     (case x of
        Fin a \<Rightarrow> if \<bar>a\<bar> = 1 then Fin 1 else if \<bar>a\<bar> < 1 then PInf else Fin 0
      | PInf \<Rightarrow> Fin 0
      | NInf \<Rightarrow> Fin 0
      | NaN \<Rightarrow> NaN)"
| "fpow x NaN = (if x = Fin 1 then Fin 1 else NaN)"

text \<open>The comparisons \<open>==\<close>, \<open>!=\<close> and \<open>>\<close>: every comparison with NaN but \<open>!=\<close> is false.\<close>

definition feq :: "float \<Rightarrow> float \<Rightarrow> bool" where
  "feq x y = (x \<noteq> NaN \<and> x = y)"

definition fne :: "float \<Rightarrow> float \<Rightarrow> bool" where
  "fne x y = (\<not> feq x y)"

fun fgt :: "float \<Rightarrow> float \<Rightarrow> bool" where
  "fgt (Fin a) (Fin b) = (b < a)"
| "fgt NaN y = False"
| "fgt x NaN = False"
| "fgt PInf PInf = False"
| "fgt PInf y = True"
| "fgt x PInf = False"
| "fgt NInf y = False"
| "fgt x NInf = True"

text \<open>The conversion \<open>(float) n\<close> of a count.\<close>

definition of_count :: "nat \<Rightarrow> float" where
  "of_count n = Fin (real n)"

text \<open>\<open>a - b\<close> on \<open>size_t\<close>, which wraps around below zero.\<close>

definition size_t_minus :: "nat \<Rightarrow> nat \<Rightarrow> nat" where
  "size_t_minus a b = (if b \<le> a then a - b else 2 ^ 64 + a - b)"

subsection \<open>Rounding to \<open>double\<close>\<close>

text \<open>
  An IEEE 754 binary64 operation returns the exact result rounded to the
  nearest number with a significand of 53 bits, a tie going to the even
  significand.  The numbers around \<open>x\<close> are the multiples of \<open>2 ^ e\<close> with
  \<open>e = \<lfloor>log 2 \<bar>x\<bar>\<rfloor> - 52\<close>; below \<open>2 ^ -1022\<close> the spacing stays \<open>2 ^ -1074\<close>
  (gradual underflow), and a rounded magnitude of \<open>2 ^ 1024\<close> or more is an
  infinity.  \<open>round_even\<close> rounds to the nearest integer, a tie to the even one.
  \<open>dadd\<close>, \<open>dsub\<close>, \<open>dmul\<close> and \<open>ddiv\<close> are \<open>+\<close>, \<open>-\<close>, \<open>*\<close> and \<open>/\<close> on \<open>double\<close>.
\<close>

definition round_even :: "real \<Rightarrow> int" where
  "round_even y =
     (let f = \<lfloor>y\<rfloor>
      in if y - of_int f < 1 / 2 then f
         else if 1 / 2 < y - of_int f then f + 1
         else if even f then f else f + 1)"

definition round_double :: "real \<Rightarrow> double" where
  "round_double x =
     (if x = 0 then Fin 0
      else let e = max (\<lfloor>log 2 \<bar>x\<bar>\<rfloor> - 52) (- 1074);
               y = of_int (round_even (x / 2 powr of_int e)) * 2 powr of_int e
           in if 2 ^ 1024 \<le> \<bar>y\<bar> then (if 0 < x then PInf else NInf) else Fin y)"

fun dbl :: "float \<Rightarrow> double" where
  "dbl (Fin x) = round_double x"
| "dbl PInf = PInf"
| "dbl NInf = NInf"
| "dbl NaN = NaN"

definition dadd :: "double \<Rightarrow> double \<Rightarrow> double" where
  "dadd x y = dbl (fadd x y)"

definition dsub :: "double \<Rightarrow> double \<Rightarrow> double" where
  "dsub x y = dbl (fsub x y)"

definition dmul :: "double \<Rightarrow> double \<Rightarrow> double" where
  "dmul x y = dbl (fmul x y)"

definition ddiv :: "double \<Rightarrow> double \<Rightarrow> double" where
  "ddiv x y = dbl (fdiv x y)"

section \<open>The alignment: class \<open>Msa\<close> (msa.cpp)\<close>

datatype error = CannotOpenFile | SymbolNotInAlphabet

record Msa =
  mali_name :: "string list"
  mali_seq :: "string list"
  nseq :: nat
  ncol :: nat
  alphabet :: string
  gap_counts :: "nat list"
  aa_freq :: "float list"
  aa_type_list :: "string list"
  nb_type :: "nat list"
  entropy :: "float list"

text \<open>
  Modelled from the spec: the accessors \<open>getNcol\<close>, \<open>getNseq\<close>, \<open>getAlphabet\<close>,
  \<open>getSymbol\<close>, \<open>getNtype\<close> and \<open>getTypeList\<close> are declared in msa.h, which is not
  among the sources; the spec lists them as pure accessors of the fields
  (\<open>symbolAt(row, col)\<close>, \<open>distinctTypeCount(col)\<close>, \<open>typeList(col)\<close>).
  \<open>getGap\<close> is in msa.cpp (line 233).  An index outside the vector or the
  string is undefined behaviour in the source; the theorems below are about
  alignments whose rows all reach the last column (\<open>rect\<close>).
\<close>

definition getNcol :: "Msa \<Rightarrow> nat" where
  "getNcol m = ncol m"

definition getNseq :: "Msa \<Rightarrow> nat" where
  "getNseq m = nseq m"

definition getAlphabet :: "Msa \<Rightarrow> string" where
  "getAlphabet m = alphabet m"

definition getSymbol :: "Msa \<Rightarrow> nat \<Rightarrow> nat \<Rightarrow> char" where
  "getSymbol m i x = mali_seq m ! i ! x"

definition getNtype :: "Msa \<Rightarrow> nat \<Rightarrow> nat" where
  "getNtype m x = nb_type m ! x"

definition getTypeList :: "Msa \<Rightarrow> nat \<Rightarrow> string" where
  "getTypeList m x = aa_type_list m ! x"

definition getGap :: "Msa \<Rightarrow> nat \<Rightarrow> nat" where
  "getGap m col = gap_counts m ! col"

definition rect :: "Msa \<Rightarrow> bool" where
  "rect m = (nseq m \<le> length (mali_seq m) \<and>
             list_all (\<lambda>row. ncol m \<le> length row) (take (nseq m) (mali_seq m)))"

text \<open>\<open>toupper\<close> in the C locale.\<close>

definition toupper :: "char \<Rightarrow> char" where
  "toupper c =
     (let n = (of_char c :: nat) in if 97 \<le> n \<and> n \<le> 122 then char_of (n - 32) else c)"

text \<open>\<open>Msa::defineAlphabet\<close> (lines 189 to 199).\<close>

definition defineAlphabet :: "Msa \<Rightarrow> Msa" where
  "defineAlphabet m =
     m\<lparr>alphabet :=
        fold (\<lambda>col alph.
          fold (\<lambda>row alph.
            if length alph \<le> str_find alph (mali_seq m ! row ! col)
            then alph @ [mali_seq m ! row ! col] else alph)
          [0..<nseq m] alph)
        [0..<ncol m] []\<rparr>"

text \<open>\<open>Msa::countGap\<close> (lines 120 to 131).\<close>

definition countGap :: "Msa \<Rightarrow> Msa" where
  "countGap m =
     m\<lparr>gap_counts :=
        fold (\<lambda>col gc.
          gc @ [fold (\<lambda>row gap.
                  if mali_seq m ! row ! col = CHR ''-'' \<or> mali_seq m ! row ! col = CHR '' ''
                  then gap + 1 else gap)
                [0..<nseq m] 0])
        [0..<ncol m] (gap_counts m)\<rparr>"

text \<open>
  \<open>Msa::countFreq\<close> (lines 138 to 164).  The counting loops carry \<open>total\<close> (here
  \<open>total_nb\<close>) and \<open>tmp_freq\<close>; \<open>exit(0)\<close> on a symbol outside the alphabet is the
  error value.
  \<open>pos\<close> is an \<open>int\<close> compared with a \<open>size_t\<close>: -1 (from \<open>npos\<close>) converts back to the
  largest \<open>size_t\<close>, a position found is unchanged.
\<close>

definition countFreq_step ::
  "Msa \<Rightarrow> nat \<Rightarrow> nat \<Rightarrow> error + nat \<times> nat list \<Rightarrow> error + nat \<times> nat list" where
  "countFreq_step m col row st =
     (case st of
        Inl e \<Rightarrow> Inl e
      | Inr (total_nb, tmp_freq) \<Rightarrow>
          let total' = (if mali_seq m ! row ! col \<noteq> CHR ''-'' \<and> mali_seq m ! row ! col \<noteq> CHR '' ''
                        then total_nb + 1 else total_nb);
              pos = str_find (alphabet m) (mali_seq m ! row ! col)
          in if length (alphabet m) \<le> pos then Inl SymbolNotInAlphabet
             else Inr (total', tmp_freq[pos := tmp_freq ! pos + 1]))"

definition countFreq_loop :: "Msa \<Rightarrow> error + nat \<times> nat list" where
  "countFreq_loop m =
     fold (\<lambda>col st. fold (countFreq_step m col) [0..<nseq m] st) [0..<ncol m]
       (Inr (0, replicate (length (alphabet m)) 0))"

definition countFreq :: "Msa \<Rightarrow> error + Msa" where
  "countFreq m =
     (case countFreq_loop m of
        Inl e \<Rightarrow> Inl e
      | Inr (total_nb, tmp_freq) \<Rightarrow>
          Inr (m\<lparr>aa_freq :=
                 map (\<lambda>i. fdiv (of_count (tmp_freq ! i)) (of_count total_nb))
                   [0..<length (alphabet m)]\<rparr>))"

text \<open>\<open>Msa::countType\<close> (lines 170 to 183).\<close>

definition column_types :: "Msa \<Rightarrow> nat \<Rightarrow> string" where
  "column_types m col =
     fold (\<lambda>row aa_types.
       if length aa_types \<le> str_find aa_types (mali_seq m ! row ! col)
       then aa_types @ [mali_seq m ! row ! col] else aa_types)
     [0..<nseq m] []"

definition countType :: "Msa \<Rightarrow> Msa" where
  "countType m =
     fold (\<lambda>col m'.
       m'\<lparr>aa_type_list := aa_type_list m' @ [column_types m col],
           nb_type := nb_type m' @ [length (column_types m col)]\<rparr>)
     [0..<ncol m] m"

text \<open>\<open>Msa::getAaPos\<close> (lines 220 to 226) and \<open>Msa::getFreq\<close> (lines 206 to 214).\<close>

definition getAaPos :: "Msa \<Rightarrow> char \<Rightarrow> int" where
  "getAaPos m aa =
     (if length (alphabet m) \<le> str_find (alphabet m) aa then - 1
      else int (str_find (alphabet m) aa))"

definition getFreq :: "Msa \<Rightarrow> char \<Rightarrow> error + float" where
  "getFreq m aa =
     (let pos = getAaPos m aa
      in if pos = - 1 then Inl SymbolNotInAlphabet else Inr (aa_freq m ! nat pos))"

text \<open>
  \<open>Msa::countEntropy\<close> (lines 247 to 268).  \<open>column_lfreq\<close> is \<open>lfreq\<close> after the
  loop over the rows; \<open>column_entropy\<close> is \<open>entropy[col]\<close> after the loop over the
  alphabet and the division.  The statement \<open>entropy[col] == 0.0;\<close> of the
  branch \<open>lfreq[i] == 1.0\<close> is a comparison whose result is dropped: the branch
  leaves \<open>entropy[col]\<close> as it is.  \<open>getAaPos\<close> is never -1 here when the alphabet
  is the one \<open>defineAlphabet\<close> collected (an index -1 would be undefined
  behaviour in the source).
\<close>

definition column_lfreq :: "Msa \<Rightarrow> nat \<Rightarrow> float list" where
  "column_lfreq m col =
     fold (\<lambda>row lfreq.
       let pos = nat (getAaPos m (mali_seq m ! row ! col))
       in lfreq[pos := fadd (lfreq ! pos) (Fin 1)])
     [0..<nseq m] (replicate (length (alphabet m)) (Fin 0))"

definition column_entropy :: "Msa \<Rightarrow> nat \<Rightarrow> float" where
  "column_entropy m col =
     fdiv
       (fold (\<lambda>i e.
          let f = fdiv (column_lfreq m col ! i) (of_count (nseq m))
          in if fgt f (Fin 0)
             then (if feq f (Fin 1) then e else fsub e (fmul f (flog f)))
             else e)
        [0..<length (alphabet m)] (Fin 0))
       (flog (of_count (size_t_minus (length (alphabet m)) 1)))"

definition countEntropy :: "Msa \<Rightarrow> Msa" where
  "countEntropy m = m\<lparr>entropy := map (column_entropy m) [0..<ncol m]\<rparr>"

text \<open>
  The constructor \<open>Msa::Msa\<close> on the text of a file that could be opened
  (lines 38 to 75): read, set \<open>nseq\<close> and \<open>ncol\<close>, upper-case, analyse.
\<close>

definition upper_case :: "nat \<Rightarrow> nat \<Rightarrow> string list \<Rightarrow> string list" where
  "upper_case n_seq n_col seqs =
     fold (\<lambda>i seqs.
       fold (\<lambda>j seqs. seqs[i := (seqs ! i)[j := toupper (seqs ! i ! j)]]) [0..<n_col] seqs)
     [0..<n_seq] seqs"

text \<open>The object at line 68: names, upper-cased rows, \<open>nseq\<close> and \<open>ncol\<close> set, the rest empty.\<close>

definition Msa_init :: "string list \<Rightarrow> string list \<Rightarrow> Msa" where
  "Msa_init names seqs =
     \<lparr>mali_name = names,
      mali_seq = upper_case (length names) (length (seqs ! 0)) seqs,
      nseq = length names,
      ncol = length (seqs ! 0),
      alphabet = [],
      gap_counts = [],
      aa_freq = [],
      aa_type_list = [],
      nb_type = [],
      entropy = []\<rparr>"

definition Msa_read :: "string \<Rightarrow> Msa" where
  "Msa_read text = (case read_file text of (names, seqs) \<Rightarrow> Msa_init names seqs)"

definition Msa_analyse :: "Msa \<Rightarrow> error + Msa" where
  "Msa_analyse m =
     (case countFreq (countGap (defineAlphabet m)) of
        Inl e \<Rightarrow> Inl e
      | Inr m' \<Rightarrow> Inr (countEntropy (countType m')))"

definition Msa_ctor :: "string \<Rightarrow> error + Msa" where
  "Msa_ctor text = Msa_analyse (Msa_read text)"

text \<open>\<open>Msa::getCol\<close> (lines 285 to 293): the column as a string.\<close>

definition getCol :: "Msa \<Rightarrow> nat \<Rightarrow> string" where
  "getCol m col = fold (\<lambda>i column. column @ [mali_seq m ! i ! col]) [0..<nseq m] []"

section \<open>The statistics\<close>

text \<open>
  What a statistic leaves behind: the lines printed on the console and the
  output file, \<open>None\<close> as long as no stream was opened on it, otherwise the
  numbers written, one per line.  \<open>writable\<close> says whether opening it succeeds.
\<close>

record world =
  console :: "string list"
  writable :: bool
  out_file :: "float list option"

text \<open>The members of a statistic object that the computations fill.\<close>

record Stat =
  seq_weight :: "float list"
  proba :: "float list list"
  col_cons :: "float list"

text \<open>The macro \<open>MIN(x,y)\<close>, which is \<open>(x < y ? x : y)\<close>.\<close>

definition MIN_of :: "nat \<Rightarrow> nat \<Rightarrow> nat" where
  "MIN_of x y = (if x < y then x else y)"

subsection \<open>The weighted entropy (wentropy.cpp)\<close>

text \<open>\<open>WEntStat::calcSeqWeight\<close> (lines 48 to 72).\<close>

definition WEntStat_calcSeqWeight :: "Msa \<Rightarrow> nat \<Rightarrow> float" where
  "WEntStat_calcSeqWeight msa i =
     (let L = getNcol msa;
          n_seq = getNseq msa;
          w = fold (\<lambda>x w.
                let k = getNtype msa x;
                    n = fold (\<lambda>seq n. if getSymbol msa i x = getSymbol msa seq x
                                        then n + 1 else n) [0..<n_seq] 0
                in fadd w (fdiv (Fin 1) (of_count (n * k))))
              [0..<L] (Fin 0)
      in fdiv w (of_count L))"

text \<open>
  \<open>WEntStat::calculateStatistic\<close> (lines 74 to 142).  \<open>proba[x][a]\<close> is zero
  (\<open>calloc\<close>) before the iteration \<open>(x, a)\<close> that sums into it, and \<open>col_cons[x]\<close>
  is pushed as 0.0 at the start of iteration \<open>x\<close>.  The allocation failures
  are not modelled; the printing in verbose mode has no effect on the results.
\<close>

definition WEntStat_proba :: "Msa \<Rightarrow> float list \<Rightarrow> nat \<Rightarrow> nat \<Rightarrow> float" where
  "WEntStat_proba msa sw x a =
     fold (\<lambda>j p. if getSymbol msa j x = getAlphabet msa ! a then fadd p (sw ! j) else p)
       [0..<getNseq msa] (Fin 0)"

definition WEntStat_col_cons :: "Msa \<Rightarrow> float list \<Rightarrow> nat \<Rightarrow> float" where
  "WEntStat_col_cons msa sw x =
     (let lambda = fdiv (Fin 1) (flog (of_count (MIN_of (length (getAlphabet msa)) (getNseq msa))))
      in fmul
           (fold (\<lambda>a c.
              if fne (WEntStat_proba msa sw x a) (Fin 0)
              then fsub c (fmul (WEntStat_proba msa sw x a) (flog (WEntStat_proba msa sw x a)))
              else c)
            [0..<length (getAlphabet msa)] (Fin 0))
           lambda)"

definition WEntStat_calculateStatistic :: "Msa \<Rightarrow> world \<Rightarrow> error + Stat \<times> world" where
  "WEntStat_calculateStatistic msa w =
     (let n_col = getNcol msa;
          n_seq = getNseq msa;
          sw = map (WEntStat_calcSeqWeight msa) [0..<n_seq];
          pr = map (\<lambda>x. map (WEntStat_proba msa sw x) [0..<length (getAlphabet msa)]) [0..<n_col];
          cc = map (WEntStat_col_cons msa sw) [0..<n_col];
          w' = w\<lparr>console := console w @
                  [''Score is based on wentropy + gap counts'',
                   ''S = (1 - wentropy) * (1 - gap_freq)'']\<rparr>
      in if \<not> writable w' then Inl CannotOpenFile
         else Inr (\<lparr>seq_weight = sw, proba = pr, col_cons = cc\<rparr>,
                   w'\<lparr>out_file := Some
                        (map (\<lambda>col. fmul (fsub (Fin 1) (cc ! col))
                                     (fsub (Fin 1) (fdiv (of_count (getGap msa col)) (of_count n_seq))))
                           [0..<n_col])\<rparr>))"

subsection \<open>The Jensen-Shannon statistic (jensen.cpp)\<close>

text \<open>\<open>JensenStat::calcSeqWeight\<close> (lines 48 to 72), in \<open>double\<close>.\<close>

definition JensenStat_calcSeqWeight :: "Msa \<Rightarrow> nat \<Rightarrow> double" where
  "JensenStat_calcSeqWeight msa i =
     (let L = getNcol msa;
          n_seq = getNseq msa;
          w = fold (\<lambda>x w.
                let k = getNtype msa x;
                    n = fold (\<lambda>seq n. if getSymbol msa i x = getSymbol msa seq x
                                        then n + 1 else n) [0..<n_seq] 0
                in fadd w (fdiv (Fin 1) (of_count (n * k))))
              [0..<L] (Fin 0)
      in fdiv w (of_count L))"

text \<open>
  \<open>JensenStat::calculateStatistic\<close> (lines 74 to 155).  \<open>pseudo\<close> is
  \<open>pow(10.0,-6.0)\<close>.  \<open>JensenStat_column\<close> is the body of the loop over the columns
  (lines 115 to 133) on the zeroed row \<open>proba[x]\<close>: the first loop sums the
  weights into \<open>proba[x][a]\<close>, replaces a zero by the pseudo-count and counts it
  in \<open>nb_abs\<close>; the second subtracts \<open>pseudo_counts\<close> from the entries above the
  pseudo-count.  The function returns at line 144: its last effect is the two
  lines printed on the console (the Greek letter of the second is spelled
  out), and the code that opens and writes the output file (lines 146 to 154)
  is never run.
\<close>

definition pseudo :: double where
  "pseudo = Fin (1 / 10 ^ 6)"

definition JensenStat_sum_column ::
  "Msa \<Rightarrow> double list \<Rightarrow> nat \<Rightarrow> double list \<times> nat" where
  "JensenStat_sum_column msa sw x =
     fold (\<lambda>a (row, nb_abs).
       let row' = row[a := fold (\<lambda>j p. if getSymbol msa j x = getAlphabet msa ! a
                                         then fadd p (sw ! j) else p)
                              [0..<getNseq msa] (row ! a)]
       in if feq (row' ! a) (Fin 0) then (row'[a := pseudo], nb_abs + 1) else (row', nb_abs))
     [0..<length (getAlphabet msa)] (replicate (length (getAlphabet msa)) (Fin 0), 0)"

definition JensenStat_column :: "Msa \<Rightarrow> double list \<Rightarrow> nat \<Rightarrow> double list" where
  "JensenStat_column msa sw x =
     (case JensenStat_sum_column msa sw x of (row, nb_abs) \<Rightarrow>
        let pseudo_counts = fdiv (fmul (of_count nb_abs) pseudo)
                                 (of_count (length (getAlphabet msa) - nb_abs))
        in fold (\<lambda>a row. if fgt (row ! a) pseudo then row[a := fsub (row ! a) pseudo_counts]
                          else row)
             [0..<length (getAlphabet msa)] row)"

definition JensenStat_calculateStatistic :: "Msa \<Rightarrow> world \<Rightarrow> Stat \<times> world" where
  "JensenStat_calculateStatistic msa w =
     (let n_col = getNcol msa;
          n_seq = getNseq msa;
          sw = map (JensenStat_calcSeqWeight msa) [0..<n_seq];
          pr = map (JensenStat_column msa sw) [0..<n_col]
      in (\<lparr>seq_weight = sw, proba = pr, col_cons = []\<rparr>,
          w\<lparr>console := console w @
                [''Score is based on Jensen-Shannon measure'',
                 ''S = lambda R(p,r) + (1 - lambda) R(q,r)'']\<rparr>))"

text \<open>
  The same functions with every \<open>double\<close> operation rounded: these are the
  numbers the program stores in \<open>seq_weight\<close> and \<open>proba\<close>.  \<open>pseudo_rounded\<close> is
  \<open>pow(10.0,-6.0)\<close>, the \<open>double\<close> nearest to \<open>10 ^ -6\<close>.  The conversions of the
  counts and of the sizes to \<open>double\<close> are exact, and so are the comparisons
  \<open>== 0.0\<close> and \<open>> pow(10.0,-6.0)\<close>.
\<close>

definition JensenStat_calcSeqWeight_rounded :: "Msa \<Rightarrow> nat \<Rightarrow> double" where
  "JensenStat_calcSeqWeight_rounded msa i =
     (let L = getNcol msa;
          n_seq = getNseq msa;
          w = fold (\<lambda>x w.
                let k = getNtype msa x;
                    n = fold (\<lambda>seq n. if getSymbol msa i x = getSymbol msa seq x
                                        then n + 1 else n) [0..<n_seq] 0
                in dadd w (ddiv (Fin 1) (of_count (n * k))))
              [0..<L] (Fin 0)
      in ddiv w (of_count L))"

definition pseudo_rounded :: double where
  "pseudo_rounded = dbl pseudo"

definition JensenStat_sum_column_rounded ::
  "Msa \<Rightarrow> double list \<Rightarrow> nat \<Rightarrow> double list \<times> nat" where
  "JensenStat_sum_column_rounded msa sw x =
     fold (\<lambda>a (row, nb_abs).
       let row' = row[a := fold (\<lambda>j p. if getSymbol msa j x = getAlphabet msa ! a
                                         then dadd p (sw ! j) else p)
                              [0..<getNseq msa] (row ! a)]
       in if feq (row' ! a) (Fin 0) then (row'[a := pseudo_rounded], nb_abs + 1)
          else (row', nb_abs))
     [0..<length (getAlphabet msa)] (replicate (length (getAlphabet msa)) (Fin 0), 0)"

definition JensenStat_column_rounded :: "Msa \<Rightarrow> double list \<Rightarrow> nat \<Rightarrow> double list" where
  "JensenStat_column_rounded msa sw x =
     (case JensenStat_sum_column_rounded msa sw x of (row, nb_abs) \<Rightarrow>
        let pseudo_counts = ddiv (dmul (of_count nb_abs) pseudo_rounded)
                                 (of_count (length (getAlphabet msa) - nb_abs))
        in fold (\<lambda>a row. if fgt (row ! a) pseudo_rounded
                          then row[a := dsub (row ! a) pseudo_counts] else row)
             [0..<length (getAlphabet msa)] row)"

definition JensenStat_calculateStatistic_rounded :: "Msa \<Rightarrow> world \<Rightarrow> Stat \<times> world" where
  "JensenStat_calculateStatistic_rounded msa w =
     (let n_col = getNcol msa;
          n_seq = getNseq msa;
          sw = map (JensenStat_calcSeqWeight_rounded msa) [0..<n_seq];
          pr = map (JensenStat_column_rounded msa sw) [0..<n_col]
      in (\<lparr>seq_weight = sw, proba = pr, col_cons = []\<rparr>,
          w\<lparr>console := console w @
                [''Score is based on Jensen-Shannon measure'',
                 ''S = lambda R(p,r) + (1 - lambda) R(q,r)'']\<rparr>))"

subsection \<open>The trident statistic (trident.cpp)\<close>

text \<open>
  Modelled from the spec: the class \<open>ScoringMatrix\<close> (scoring_matrix.h) and the
  options (options.h) are not among the sources.  The spec gives the matrix an
  alphabet, a normalised score \<open>normScore(a,b)\<close> and the extrema \<open>min\<close> and \<open>max\<close> of
  the raw table; \<open>getAlphabetSize\<close> is the length of the alphabet.  The options
  read here are the three exponents.  A matrix file that cannot be opened is
  \<open>None\<close>.
\<close>

record ScoringMatrix =
  sm_alphabet :: string
  normScore :: "char \<Rightarrow> char \<Rightarrow> float"
  getMax :: float
  getMin :: float

definition getAlphabetSize :: "ScoringMatrix \<Rightarrow> nat" where
  "getAlphabetSize score_mat = length (sm_alphabet score_mat)"

record Options =
  factor_a :: float
  factor_b :: float
  factor_c :: float

record TridStat =
  ts_seq_weight :: "float list"
  ts_t :: "float list"
  ts_r :: "float list"
  ts_g :: "float list"

text \<open>\<open>TridStat::calcSeqWeight\<close> (lines 37 to 61).\<close>

definition TridStat_calcSeqWeight :: "Msa \<Rightarrow> nat \<Rightarrow> float" where
  "TridStat_calcSeqWeight msa i =
     (let L = getNcol msa;
          n_seq = getNseq msa;
          w = fold (\<lambda>x w.
                let k = getNtype msa x;
                    n = fold (\<lambda>seq n. if getSymbol msa i x = getSymbol msa seq x
                                        then n + 1 else n) [0..<n_seq] 0
                in fadd w (fdiv (Fin 1) (of_count (n * k))))
              [0..<L] (Fin 0)
      in fdiv w (of_count L))"

text \<open>\<open>TridStat::normVect\<close> (lines 190 to 197).\<close>

definition normVect :: "float list \<Rightarrow> float" where
  "normVect vect =
     fsqrt (fold (\<lambda>i score. fadd score (fmul (vect ! i) (vect ! i))) [0..<length vect] (Fin 0))"

text \<open>The entropy term \<open>t[x]\<close> (lines 95 to 111).\<close>

definition TridStat_tmp_proba :: "Msa \<Rightarrow> float list \<Rightarrow> nat \<Rightarrow> nat \<Rightarrow> float" where
  "TridStat_tmp_proba msa sw x a =
     fold (\<lambda>j tmp_proba. if getSymbol msa j x = getAlphabet msa ! a
                           then fadd tmp_proba (sw ! j) else tmp_proba)
       [0..<getNseq msa] (Fin 0)"

definition TridStat_t :: "Msa \<Rightarrow> float list \<Rightarrow> nat \<Rightarrow> float" where
  "TridStat_t msa sw x =
     (let lambda = fdiv (Fin 1) (flog (of_count (MIN_of (length (getAlphabet msa)) (getNseq msa))))
      in fmul
           (fold (\<lambda>a tx.
              if fne (TridStat_tmp_proba msa sw x a) (Fin 0)
              then fsub tx (fmul (TridStat_tmp_proba msa sw x a)
                                 (flog (TridStat_tmp_proba msa sw x a)))
              else tx)
            [0..<length (getAlphabet msa)] (Fin 0))
           lambda)"

text \<open>
  The similarity term \<open>r[x]\<close> (lines 124 to 160), on the alignment after
  \<open>fitToAlphabet\<close>.  \<open>TridStat_ntype\<close> and \<open>TridStat_type_list\<close> are \<open>ntype\<close> and
  \<open>type_list\<close> after the gap entry has been erased (lines 126 to 133); \<open>ntype\<close> is
  an \<open>int\<close>.  The loops over \<open>i < ntype\<close> do not run for a negative \<open>ntype\<close>.
\<close>

definition TridStat_type_list :: "Msa \<Rightarrow> nat \<Rightarrow> string" where
  "TridStat_type_list msa x =
     (let type_list = getTypeList msa x;
          pos = str_find type_list CHR ''-''
      in if pos < length type_list then take pos type_list @ drop (Suc pos) type_list
         else type_list)"

definition TridStat_ntype :: "Msa \<Rightarrow> nat \<Rightarrow> int" where
  "TridStat_ntype msa x =
     (let ntype = int (getNtype msa x);
          type_list = getTypeList msa x;
          pos = str_find type_list CHR ''-''
      in if pos < length type_list then ntype - 1 else ntype)"

definition TridStat_r :: "ScoringMatrix \<Rightarrow> Msa \<Rightarrow> nat \<Rightarrow> float" where
  "TridStat_r score_mat msa x =
     (let alph_size = getAlphabetSize score_mat;
          sm_alph = sm_alphabet score_mat;
          ntype = TridStat_ntype msa x;
          type_list = TridStat_type_list msa x
      in if ntype \<noteq> 0 then
           let mean0 = fold (\<lambda>i mean.
                         fold (\<lambda>a mean.
                           mean[a := fadd (mean ! a)
                                          (normScore score_mat (sm_alph ! a) (type_list ! i))])
                         [0..<alph_size] mean)
                       [0..<nat ntype] (replicate alph_size (Fin 0));
               mean = fold (\<lambda>a mean. mean[a := fdiv (mean ! a) (Fin (real_of_int ntype))])
                        [0..<alph_size] mean0;
               lambda = fsqrt (fmul (fmul (of_count alph_size)
                                          (fsub (getMax score_mat) (getMin score_mat)))
                                    (fsub (getMax score_mat) (getMin score_mat)));
               tmp_score = fold (\<lambda>i tmp_score.
                             fadd tmp_score
                               (normVect (map (\<lambda>a. fsub (mean ! a)
                                                 (normScore score_mat (sm_alph ! a) (type_list ! i)))
                                            [0..<alph_size])))
                           [0..<nat ntype] (Fin 0)
           in fdiv (fdiv tmp_score (Fin (real_of_int ntype))) lambda
         else Fin 1)"

text \<open>
  \<open>TridStat::calculateStatistic\<close> (lines 63 to 187).

  Modelled from the spec: \<open>Msa::fitToAlphabet\<close> is not among the sources; the
  spec says it re-derives the summaries of the alignment (type lists, gap
  handling) for the alphabet of the matrix.  It is the parameter \<open>fit\<close>.  The
  weights and \<open>t\<close> are computed before it, \<open>r\<close> and \<open>g\<close> after it, on the alignment
  it returns; \<open>ncol\<close> and \<open>nseq\<close> were read before it.  Of the lines printed, the
  three that show the exponents are left out (the printing of a number is
  not modelled).
\<close>

definition TridStat_score :: "Options \<Rightarrow> float \<Rightarrow> float \<Rightarrow> float \<Rightarrow> float" where
  "TridStat_score opts tx rx gx =
     fmul (fmul (fpow (fsub (Fin 1) tx) (factor_a opts))
                (fpow (fsub (Fin 1) rx) (factor_b opts)))
          (fpow (fsub (Fin 1) gx) (factor_c opts))"

definition TridStat_calculateStatistic ::
  "Options \<Rightarrow> ScoringMatrix option \<Rightarrow> (string \<Rightarrow> Msa \<Rightarrow> Msa) \<Rightarrow> Msa \<Rightarrow> world
     \<Rightarrow> error + TridStat \<times> Msa \<times> world" where
  "TridStat_calculateStatistic opts matrix_file fit msa w =
     (let n_col = getNcol msa;
          n_seq = getNseq msa;
          sw = map (TridStat_calcSeqWeight msa) [0..<n_seq];
          tt = map (TridStat_t msa sw) [0..<n_col]
      in case matrix_file of
           None \<Rightarrow> Inl CannotOpenFile
         | Some score_mat \<Rightarrow>
             let msa' = fit (sm_alphabet score_mat) msa;
                 rr = map (TridStat_r score_mat msa') [0..<n_col];
                 gg = map (\<lambda>x. fdiv (of_count (getGap msa' x)) (of_count n_seq)) [0..<n_col];
                 w' = w\<lparr>console := console w @
                         [''Score is based on trident score defined by Valdar (2002)'',
                          ''S = (1 - t)^a * (1 - r)^b * (1 - g)^c'',
                          ''t measures the entropy'',
                          ''r measures the residue similarity (based on a normalized substitution matrix)'',
                          ''g measures the gap frequencies'']\<rparr>
             in if \<not> writable w' then Inl CannotOpenFile
                else Inr (\<lparr>ts_seq_weight = sw, ts_t = tt, ts_r = rr, ts_g = gg\<rparr>, msa',
                          w'\<lparr>out_file := Some
                               (map (\<lambda>col. TridStat_score opts (tt ! col) (rr ! col) (gg ! col))
                                  [0..<n_col])\<rparr>))"

subsection \<open>The reading loop keeps names and sequences in step, but for one case\<close>

text \<open>
  The relation between \<open>mali_name\<close> and \<open>mali_seq\<close> at the head of the loop:
  nothing read yet, or one name more than sequences (the current record's
  sequence is still in \<open>tmp_seq\<close>), or both full.
\<close>

definition names_seqs_inv :: "string list \<Rightarrow> string list \<Rightarrow> bool" where
  "names_seqs_inv names seqs =
     (if names = [] then seqs = []
      else if length seqs < nb_seq_limits then length names = length seqs + 1
      else length names = length seqs \<and> length seqs = nb_seq_limits)"

lemma read_loop_inv:
  "names_seqs_inv names seqs \<Longrightarrow> read_loop inp good names seqs tmp = (n', s', t')
     \<Longrightarrow> names_seqs_inv n' s'"
proof (induction inp good names seqs tmp rule: read_loop.induct)
  case (1 inp good names seqs tmp_seq)
  show ?case
  proof (cases "good \<and> length seqs < nb_seq_limits")
    case False
    have "read_loop inp good names seqs tmp_seq = (names, seqs, tmp_seq)"
      by (subst read_loop.simps) (simp only: False if_False)
    with 1(4) have "n' = names" "s' = seqs" by simp_all
    with 1(3) show ?thesis by simp
  next
    case True
    obtain s inp' good' where g: "getline inp = (s, inp', good')" by (cases "getline inp") auto
    show ?thesis
    proof (cases "s \<noteq> [] \<and> hd s = CHR ''>''")
      case h: True
      define seqs' where "seqs' = (if length names \<noteq> 0 then seqs @ [tmp_seq] else seqs)"
      define names' where "names' = (if length seqs' < nb_seq_limits
                           then names @ [substr s 1 (str_find s CHR '' '' - 1)]
                           else names)"
      have "read_loop inp good names seqs tmp_seq = read_loop inp' good' names' seqs' []"
        by (subst read_loop.simps) (use True g h in \<open>simp add: Let_def seqs'_def names'_def\<close>)
      with 1(4) have r: "read_loop inp' good' names' seqs' [] = (n', s', t')" by simp
      have "names_seqs_inv names' seqs'"
        using 1(3) True by (auto simp: names_seqs_inv_def seqs'_def names'_def split: if_splits)
      from 1(1) [OF True g [symmetric] refl h seqs'_def names'_def this r] show ?thesis .
    next
      case h: False
      have "read_loop inp good names seqs tmp_seq = read_loop inp' good' names seqs (tmp_seq @ s)"
        by (subst read_loop.simps) (use True g h in \<open>auto\<close>)
      with 1(4) have r: "read_loop inp' good' names seqs (tmp_seq @ s) = (n', s', t')" by simp
      from 1(2) [OF True g [symmetric] refl h 1(3) r] show ?thesis .
    qed
  qed
qed

lemma read_file_lengths:
  assumes "read_file text = (names, seqs)"
  shows "length names \<le> nb_seq_limits" and "length seqs \<le> nb_seq_limits"
    and "names \<noteq> [] \<Longrightarrow> length names = length seqs"
    and "names = [] \<Longrightarrow> length seqs = 1"
proof -
  obtain n s t where r: "read_loop text True [] [] [] = (n, s, t)"
    by (cases "read_loop text True [] [] []") auto
  have "names_seqs_inv [] []" by (simp add: names_seqs_inv_def)
  from read_loop_inv [OF this r] have inv: "names_seqs_inv n s" .
  from assms r have eq: "names = n" "seqs = (if length s < nb_seq_limits then s @ [t] else s)"
    by (simp_all add: read_file_def)
  from inv eq show "length names \<le> nb_seq_limits" "length seqs \<le> nb_seq_limits"
    by (auto simp: names_seqs_inv_def nb_seq_limits_def split: if_splits)
  from inv eq show "names \<noteq> [] \<Longrightarrow> length names = length seqs"
    by (auto simp: names_seqs_inv_def split: if_splits)
  from inv eq show "names = [] \<Longrightarrow> length seqs = 1"
    by (auto simp: names_seqs_inv_def nb_seq_limits_def split: if_splits)
qed

text \<open>
  Claim C9 (names and sequences retained in equal number, at most 500 each).
  The reading code run on the empty text, a readable input: the loop reads one
  empty line, no name is stored, and the push after the loop, which lacks the
  test \<open>mali_name.size() != 0\<close> of the push inside the loop, stores one (empty)
  sequence.  So there are 0 names and 1 sequence.
\<close>

theorem C9_read_file_empty_text:
  "read_file [] = ([], [[]]) \<and> length (fst (read_file [])) \<noteq> length (snd (read_file []))"
  by (simp add: read_file_def read_loop.simps [of "[]"] getline_def nb_seq_limits_def)

section \<open>Facts about the string operations\<close>

lemma find_from_absent: "c \<notin> set s \<Longrightarrow> find_from s c i = npos"
  by (induction s arbitrary: i) auto

lemma find_from_present:
  "c \<in> set s \<Longrightarrow> i \<le> find_from s c i \<and> find_from s c i < i + length s
     \<and> s ! (find_from s c i - i) = c"
proof (induction s arbitrary: i)
  case Nil
  then show ?case by simp
next
  case (Cons d s)
  show ?case
  proof (cases "d = c")
    case True
    then show ?thesis by simp
  next
    case False
    with Cons.prems have "c \<in> set s" by simp
    from Cons.IH [OF this, of "Suc i"]
    have a: "Suc i \<le> find_from s c (Suc i)" "find_from s c (Suc i) < Suc i + length s"
      "s ! (find_from s c (Suc i) - Suc i) = c" by simp_all
    from a(1) have "find_from s c (Suc i) - i = Suc (find_from s c (Suc i) - Suc i)" by arith
    with a False show ?thesis by simp
  qed
qed

lemma str_find_less: "c \<in> set s \<Longrightarrow> str_find s c < length s"
  using find_from_present [of c s 0] by (simp add: str_find_def)

lemma nth_str_find: "c \<in> set s \<Longrightarrow> s ! str_find s c = c"
  using find_from_present [of c s 0] by (simp add: str_find_def)

lemma str_find_absent: "c \<notin> set s \<Longrightarrow> str_find s c = npos"
  by (simp add: str_find_def find_from_absent)

lemma distinct_string_length: "distinct (s :: string) \<Longrightarrow> length s \<le> 256"
proof -
  assume "distinct s"
  then have "length s = card (set s)" by (simp add: distinct_card)
  also have "\<dots> \<le> card (UNIV :: char set)" by (rule card_mono) simp_all
  also have "\<dots> = 256" by (simp add: card_UNIV_char)
  finally show ?thesis .
qed

lemma absent_iff: "distinct s \<Longrightarrow> length s \<le> str_find s c \<longleftrightarrow> c \<notin> set s"
  using distinct_string_length [of s] str_find_less [of c s] str_find_absent [of c s]
  by (auto simp: npos_def)

lemma str_find_nth: "distinct s \<Longrightarrow> i < length s \<Longrightarrow> str_find s (s ! i) = i"
proof -
  assume d: "distinct s" and i: "i < length s"
  then have "s ! i \<in> set s" by simp
  from str_find_less [OF this] nth_str_find [OF this] d i show ?thesis
    by (simp add: nth_eq_iff_index_eq)
qed

text \<open>
  The step shared by \<open>defineAlphabet\<close> and \<open>countType\<close>: append a symbol not yet in
  the string.  \<open>cells\<close> lists the symbols of the alignment in the order the loops
  of \<open>defineAlphabet\<close> and \<open>countFreq\<close> visit them, column by column.
\<close>

definition add_symbol :: "char \<Rightarrow> string \<Rightarrow> string" where
  "add_symbol c s = (if length s \<le> str_find s c then s @ [c] else s)"

lemma add_symbol_distinct:
  "distinct s \<Longrightarrow> distinct (add_symbol c s) \<and> set (add_symbol c s) = insert c (set s)"
  by (auto simp: add_symbol_def absent_iff)

lemma fold_add_symbol:
  "distinct s \<Longrightarrow> distinct (fold add_symbol cs s) \<and> set (fold add_symbol cs s) = set s \<union> set cs"
proof (induction cs arbitrary: s)
  case Nil
  then show ?case by simp
next
  case (Cons c cs)
  from add_symbol_distinct [OF Cons.prems, of c] Cons.IH [of "add_symbol c s"]
  show ?case by auto
qed

lemma getCol_map: "getCol m col = map (\<lambda>i. mali_seq m ! i ! col) [0..<nseq m]"
proof -
  have "fold (\<lambda>i column. column @ [f i]) xs ys = ys @ map f xs" for f :: "nat \<Rightarrow> char" and xs ys
    by (induction xs arbitrary: ys) simp_all
  then show ?thesis by (simp add: getCol_def)
qed

definition cells :: "Msa \<Rightarrow> string" where
  "cells m = concat (map (getCol m) [0..<ncol m])"

lemma fold_rows: 
  "fold (\<lambda>row. f (mali_seq m ! row ! col)) [0..<nseq m] = fold f (getCol m col)"
  by (simp add: getCol_map fold_map comp_def)

lemma fold_concat_list: "fold f (concat xss) = fold (fold f) xss"
  by (induction xss) simp_all

lemma fold_cells:
  "fold (\<lambda>col. fold (\<lambda>row. f (mali_seq m ! row ! col)) [0..<nseq m]) [0..<ncol m] = fold f (cells m)"
  by (simp add: cells_def fold_concat_list fold_map comp_def fold_rows)

lemma alphabet_defineAlphabet:
  "alphabet (defineAlphabet m) = fold add_symbol (cells m) []"
  unfolding defineAlphabet_def add_symbol_def [abs_def]
  using fold_cells [of "\<lambda>c alph. if length alph \<le> str_find alph c then alph @ [c] else alph" m]
  by (simp add: fun_eq_iff)

lemma column_types_fold: "column_types m col = fold add_symbol (getCol m col) []"
  unfolding column_types_def add_symbol_def [abs_def]
  using fold_rows [of "\<lambda>c alph. if length alph \<le> str_find alph c then alph @ [c] else alph" m col]
  by (simp add: fun_eq_iff)

section \<open>The Jensen-Shannon statistic writes no output\<close>

text \<open>
  Claim C4.  For every alignment and every state of the console and the output
  file, \<open>JensenStat::calculateStatistic\<close> returns (the model is a total
  function with no error value) and the output file is as it was: not opened,
  and no score written.
\<close>

theorem C4_jensen_leaves_output_file:
  "out_file (snd (JensenStat_calculateStatistic msa w)) = out_file w"
  by (simp add: JensenStat_calculateStatistic_def Let_def)

text \<open>
  The rounding changes the numbers only: with the rounded operations the
  console and the output file are left in the same state.
\<close>

lemma JensenStat_rounded_world:
  "snd (JensenStat_calculateStatistic_rounded msa w) = snd (JensenStat_calculateStatistic msa w)"
  by (simp add: JensenStat_calculateStatistic_rounded_def JensenStat_calculateStatistic_def Let_def)

section \<open>The counting loop of \<open>countFreq\<close>\<close>

definition is_gap :: "char \<Rightarrow> bool" where
  "is_gap c = (c = CHR ''-'' \<or> c = CHR '' '')"

definition freq_step :: "string \<Rightarrow> char \<Rightarrow> error + nat \<times> nat list \<Rightarrow> error + nat \<times> nat list" where
  "freq_step A c st =
     (case st of
        Inl e \<Rightarrow> Inl e
      | Inr (total_nb, tmp_freq) \<Rightarrow>
          if length A \<le> str_find A c then Inl SymbolNotInAlphabet
          else Inr (if is_gap c then total_nb else total_nb + 1,
                    tmp_freq[str_find A c := tmp_freq ! str_find A c + 1]))"

lemma countFreq_step_conv:
  "countFreq_step m col row = freq_step (alphabet m) (mali_seq m ! row ! col)"
  by (auto simp: countFreq_step_def freq_step_def is_gap_def Let_def fun_eq_iff
      split: sum.splits prod.splits)

lemma countFreq_loop_conv:
  "countFreq_loop m =
     fold (freq_step (alphabet m)) (cells m) (Inr (0, replicate (length (alphabet m)) 0))"
  unfolding countFreq_loop_def countFreq_step_conv
  using fold_cells [of "freq_step (alphabet m)" m] by (simp add: fun_eq_iff)

lemma fold_freq_step:
  assumes "distinct A"
  shows "set cs \<subseteq> set A \<Longrightarrow> length f = length A \<Longrightarrow>
         fold (freq_step A) cs (Inr (t, f)) =
           Inr (t + length (filter (\<lambda>c. \<not> is_gap c) cs),
                map (\<lambda>i. f ! i + count_list cs (A ! i)) [0..<length A])"
proof (induction cs arbitrary: t f)
  case Nil
  from map_nth [of f] Nil show ?case by simp
next
  case (Cons c cs)
  define pos where "pos = str_find A c"
  from Cons.prems have cA: "c \<in> set A" by simp
  then have pos: "pos < length A" "A ! pos = c"
    by (simp_all add: pos_def str_find_less nth_str_find)
  define f' where "f' = f[pos := f ! pos + 1]"
  have step: "freq_step A c (Inr (t, f)) = Inr (if is_gap c then t else t + 1, f')"
    using pos by (simp add: freq_step_def pos_def f'_def)
  have len: "length f' = length A" using Cons.prems by (simp add: f'_def)
  have "map (\<lambda>i. f' ! i + count_list cs (A ! i)) [0..<length A]
          = map (\<lambda>i. f ! i + count_list (c # cs) (A ! i)) [0..<length A]"
  proof (rule map_cong [OF refl])
    fix i assume "i \<in> set [0..<length A]"
    then have i: "i < length A" by simp
    show "f' ! i + count_list cs (A ! i) = f ! i + count_list (c # cs) (A ! i)"
    proof (cases "i = pos")
      case True
      with pos Cons.prems show ?thesis by (simp add: f'_def)
    next
      case False
      with assms i pos have "A ! i \<noteq> c" by (auto simp: nth_eq_iff_index_eq)
      with False show ?thesis by (simp add: f'_def)
    qed
  qed
  with Cons.IH [of f' "if is_gap c then t else t + 1"] Cons.prems len step
  show ?case by simp
qed

lemma set_cells_alphabet:
  "distinct (alphabet (defineAlphabet m)) \<and> set (alphabet (defineAlphabet m)) = set (cells m)"
  using fold_add_symbol [of "[]" "cells m"] by (simp add: alphabet_defineAlphabet)

section \<open>What the analysis stores in the object\<close>

lemma getCol_cong:
  "mali_seq m = mali_seq m' \<Longrightarrow> nseq m = nseq m' \<Longrightarrow> getCol m = getCol m'"
  by (simp add: getCol_def fun_eq_iff)

lemma cells_cong:
  "mali_seq m = mali_seq m' \<Longrightarrow> nseq m = nseq m' \<Longrightarrow> ncol m = ncol m' \<Longrightarrow> cells m = cells m'"
  by (simp add: cells_def getCol_cong [of m m'])

lemma column_entropy_cong:
  "alphabet m = alphabet m' \<Longrightarrow> mali_seq m = mali_seq m' \<Longrightarrow> nseq m = nseq m'
     \<Longrightarrow> column_entropy m col = column_entropy m' col"
  by (simp add: column_entropy_def column_lfreq_def getAaPos_def cong: if_cong)

lemma column_types_cong:
  "mali_seq m = mali_seq m' \<Longrightarrow> nseq m = nseq m' \<Longrightarrow> column_types m col = column_types m' col"
  by (simp add: column_types_fold getCol_cong [of m m'])

lemma countType_fold_fields:
  "aa_type_list (fold (\<lambda>col m'. m'\<lparr>aa_type_list := aa_type_list m' @ [f col],
                                      nb_type := nb_type m' @ [g col]\<rparr>) xs m)
     = aa_type_list m @ map f xs
   \<and> nb_type (fold (\<lambda>col m'. m'\<lparr>aa_type_list := aa_type_list m' @ [f col],
                                      nb_type := nb_type m' @ [g col]\<rparr>) xs m)
     = nb_type m @ map g xs
   \<and> Msa.truncate (fold (\<lambda>col m'. m'\<lparr>aa_type_list := aa_type_list m' @ [f col],
                                      nb_type := nb_type m' @ [g col]\<rparr>) xs m)
       \<lparr>aa_type_list := [], nb_type := []\<rparr>
     = Msa.truncate m \<lparr>aa_type_list := [], nb_type := []\<rparr>"
  by (induction xs arbitrary: m) (simp_all add: Msa.truncate_def)


lemma countType_fields:
  "aa_type_list (countType m) = aa_type_list m @ map (column_types m) [0..<ncol m]"
  "nb_type (countType m) = nb_type m @ map (\<lambda>col. length (column_types m col)) [0..<ncol m]"
  "mali_name (countType m) = mali_name m" "mali_seq (countType m) = mali_seq m"
  "nseq (countType m) = nseq m" "ncol (countType m) = ncol m"
  "alphabet (countType m) = alphabet m" "gap_counts (countType m) = gap_counts m"
  "aa_freq (countType m) = aa_freq m" "entropy (countType m) = entropy m"
proof -
  let ?r = "fold (\<lambda>col m'. m'\<lparr>aa_type_list := aa_type_list m' @ [column_types m col],
                 nb_type := nb_type m' @ [length (column_types m col)]\<rparr>) [0..<ncol m] m"
  have r: "countType m = ?r" by (simp add: countType_def)
  from countType_fold_fields [where f = "column_types m" and g = "\<lambda>col. length (column_types m col)"
      and xs = "[0..<ncol m]" and m = m]
  have a: "aa_type_list ?r = aa_type_list m @ map (column_types m) [0..<ncol m]"
    and b: "nb_type ?r = nb_type m @ map (\<lambda>col. length (column_types m col)) [0..<ncol m]"
    and c: "Msa.truncate ?r \<lparr>aa_type_list := [], nb_type := []\<rparr>
              = Msa.truncate m \<lparr>aa_type_list := [], nb_type := []\<rparr>"
    by blast+
  from a r show "aa_type_list (countType m) = aa_type_list m @ map (column_types m) [0..<ncol m]"
    by simp
  from b r show "nb_type (countType m) = nb_type m @ map (\<lambda>col. length (column_types m col)) [0..<ncol m]"
    by simp
  from c have "mali_name ?r = mali_name m \<and> mali_seq ?r = mali_seq m \<and> nseq ?r = nseq m
      \<and> ncol ?r = ncol m \<and> alphabet ?r = alphabet m \<and> gap_counts ?r = gap_counts m
      \<and> aa_freq ?r = aa_freq m \<and> entropy ?r = entropy m"
    by (simp add: Msa.truncate_def)
  with r show "mali_name (countType m) = mali_name m" "mali_seq (countType m) = mali_seq m"
    "nseq (countType m) = nseq m" "ncol (countType m) = ncol m"
    "alphabet (countType m) = alphabet m" "gap_counts (countType m) = gap_counts m"
    "aa_freq (countType m) = aa_freq m" "entropy (countType m) = entropy m"
    by simp_all
qed

lemma fold_append_map: "fold (\<lambda>x ys. ys @ [f x]) xs ys = ys @ map f xs"
  by (induction xs arbitrary: ys) simp_all

lemma count_gaps_column:
  "fold (\<lambda>row gap. if mali_seq m ! row ! col = CHR ''-'' \<or> mali_seq m ! row ! col = CHR '' ''
                     then gap + 1 else gap) [0..<nseq m] (0::nat)
   = length (filter is_gap (getCol m col))"
proof -
  have "fold (\<lambda>c gap. if is_gap c then gap + 1 else gap) cs (g::nat) = g + length (filter is_gap cs)"
    for cs g by (induction cs arbitrary: g) simp_all
  from this [of "getCol m col" 0]
    fold_rows [THEN fun_cong, of "\<lambda>c gap. if is_gap c then gap + 1 else gap" m col "0::nat"]
  have "fold (\<lambda>row gap. if is_gap (mali_seq m ! row ! col) then gap + 1 else gap) [0..<nseq m] (0::nat)
          = length (filter is_gap (getCol m col))"
    by simp
  then show ?thesis by (simp add: is_gap_def)
qed

lemma gap_counts_countGap:
  "gap_counts (countGap m) = gap_counts m @ map (\<lambda>col. length (filter is_gap (getCol m col))) [0..<ncol m]"
  by (simp add: countGap_def count_gaps_column fold_append_map)

text \<open>The counting loop of \<open>countFreq\<close> never meets a symbol outside the alphabet
  that \<open>defineAlphabet\<close> collected from the same rows.\<close>

lemma countFreq_loop_defined:
  assumes "alphabet m = alphabet (defineAlphabet m0)" "mali_seq m = mali_seq m0"
    "nseq m = nseq m0" "ncol m = ncol m0"
  shows "countFreq_loop m =
           Inr (length (filter (\<lambda>c. \<not> is_gap c) (cells m0)),
                map (\<lambda>i. count_list (cells m0) (alphabet m ! i)) [0..<length (alphabet m)])"
proof -
  from assms have c: "cells m = cells m0" by (intro cells_cong)
  from set_cells_alphabet [of m0] assms(1)
  have d: "distinct (alphabet m)" and s: "set (cells m0) \<subseteq> set (alphabet m)" by simp_all
  from fold_freq_step [OF d s, of "replicate (length (alphabet m)) 0" 0]
  show ?thesis by (simp add: countFreq_loop_conv c)
qed

lemma Msa_analyse_Inr:
  "Msa_analyse m0 =
     Inr (countEntropy (countType ((countGap (defineAlphabet m0))
       \<lparr>aa_freq := map (\<lambda>i. fdiv (of_count (count_list (cells m0) (alphabet (defineAlphabet m0) ! i)))
                                 (of_count (length (filter (\<lambda>c. \<not> is_gap c) (cells m0)))))
                     [0..<length (alphabet (defineAlphabet m0))]\<rparr>)))"
proof -
  let ?m = "countGap (defineAlphabet m0)"
  have f: "alphabet ?m = alphabet (defineAlphabet m0)" "mali_seq ?m = mali_seq m0"
    "nseq ?m = nseq m0" "ncol ?m = ncol m0"
    by (simp_all add: countGap_def defineAlphabet_def)
  have e: "map (\<lambda>i. fdiv (of_count (map G [0..<n] ! i)) T) [0..<n]
             = map (\<lambda>i. fdiv (of_count (G i)) T) [0..<n]" for G n T
    by (rule map_cong) simp_all
  show ?thesis
    by (simp add: Msa_analyse_def countFreq_def countFreq_loop_defined [OF f] f(1) e)
qed

lemma Msa_analyse_fields:
  assumes "Msa_analyse m0 = Inr m"
  shows "mali_name m = mali_name m0" "mali_seq m = mali_seq m0" "nseq m = nseq m0" "ncol m = ncol m0"
    and "alphabet m = fold add_symbol (cells m0) []"
    and "gap_counts m = gap_counts m0 @ map (\<lambda>col. length (filter is_gap (getCol m0 col))) [0..<ncol m0]"
    and "aa_type_list m = aa_type_list m0 @ map (\<lambda>col. fold add_symbol (getCol m0 col) []) [0..<ncol m0]"
    and "nb_type m = nb_type m0 @ map (\<lambda>col. length (fold add_symbol (getCol m0 col) [])) [0..<ncol m0]"
    and "aa_freq m = map (\<lambda>i. fdiv (of_count (count_list (cells m0) (alphabet m ! i)))
                                 (of_count (length (filter (\<lambda>c. \<not> is_gap c) (cells m0)))))
                     [0..<length (alphabet m)]"
    and "entropy m = map (column_entropy m) [0..<ncol m0]"
proof -
  let ?m2 = "countGap (defineAlphabet m0)"
  let ?m3 = "?m2\<lparr>aa_freq := map (\<lambda>i. fdiv (of_count (count_list (cells m0) (alphabet (defineAlphabet m0) ! i)))
                                 (of_count (length (filter (\<lambda>c. \<not> is_gap c) (cells m0)))))
                     [0..<length (alphabet (defineAlphabet m0))]\<rparr>"
  from assms have m: "m = countEntropy (countType ?m3)" by (simp add: Msa_analyse_Inr)
  have f3: "mali_name ?m3 = mali_name m0" "mali_seq ?m3 = mali_seq m0" "nseq ?m3 = nseq m0" "ncol ?m3 = ncol m0"
    "alphabet ?m3 = alphabet (defineAlphabet m0)" "aa_type_list ?m3 = aa_type_list m0"
    "nb_type ?m3 = nb_type m0" "gap_counts ?m3 = gap_counts ?m2"
    by (simp_all add: countGap_def defineAlphabet_def)
  have ce: "mali_name (countEntropy x) = mali_name x" "mali_seq (countEntropy x) = mali_seq x"
    "nseq (countEntropy x) = nseq x" "ncol (countEntropy x) = ncol x"
    "alphabet (countEntropy x) = alphabet x" "gap_counts (countEntropy x) = gap_counts x"
    "aa_type_list (countEntropy x) = aa_type_list x" "nb_type (countEntropy x) = nb_type x"
    "aa_freq (countEntropy x) = aa_freq x" for x
    by (simp_all add: countEntropy_def)
  show "mali_name m = mali_name m0" "mali_seq m = mali_seq m0" "nseq m = nseq m0" "ncol m = ncol m0"
    by (simp_all add: m ce countType_fields f3)
  show a: "alphabet m = fold add_symbol (cells m0) []"
    using f3(5) by (simp add: m ce countType_fields alphabet_defineAlphabet)
  have gc: "gap_counts ?m2 = gap_counts m0 @ map (\<lambda>col. length (filter is_gap (getCol m0 col))) [0..<ncol m0]"
    using gap_counts_countGap [of "defineAlphabet m0"] getCol_cong [of "defineAlphabet m0" m0]
    by (simp add: defineAlphabet_def)
  show "gap_counts m = gap_counts m0 @ map (\<lambda>col. length (filter is_gap (getCol m0 col))) [0..<ncol m0]"
    by (simp add: m ce countType_fields f3 gc)
  have ct: "column_types ?m3 col = fold add_symbol (getCol m0 col) []" for col
    using getCol_cong [of ?m3 m0] f3 by (simp add: column_types_fold)
  show "aa_type_list m = aa_type_list m0 @ map (\<lambda>col. fold add_symbol (getCol m0 col) []) [0..<ncol m0]"
    by (simp add: m ce countType_fields f3 ct)
  show "nb_type m = nb_type m0 @ map (\<lambda>col. length (fold add_symbol (getCol m0 col) [])) [0..<ncol m0]"
    by (simp add: m ce countType_fields f3 ct)
  show "aa_freq m = map (\<lambda>i. fdiv (of_count (count_list (cells m0) (alphabet m ! i)))
                                 (of_count (length (filter (\<lambda>c. \<not> is_gap c) (cells m0)))))
                     [0..<length (alphabet m)]"
    by (simp add: m ce countType_fields f3)
  have "column_entropy (countType ?m3) col = column_entropy m col" for col
    by (rule column_entropy_cong) (simp_all add: m ce)
  then show "entropy m = map (column_entropy m) [0..<ncol m0]"
    by (simp add: m countEntropy_def countType_fields f3)
qed

lemmas read_eval = read_file_def read_loop.simps getline_def newline_def nb_seq_limits_def
  substr_def str_find_def npos_def

section \<open>The lookups of \<open>countFreq\<close> succeed\<close>

text \<open>
  Claim C10.  For the object the constructor has read from any text whose rows
  all reach the last column, the counting loops of \<open>countFreq\<close>, run after
  \<open>defineAlphabet\<close> and \<open>countGap\<close> on the same rows, end with the counts and not
  with the fatal exit, and so the constructor returns a model.
\<close>

theorem C10_countFreq_lookups_succeed:
  assumes "rect (Msa_read text)"
  shows "(\<exists>total_nb tmp_freq.
            countFreq_loop (countGap (defineAlphabet (Msa_read text))) = Inr (total_nb, tmp_freq))
         \<and> (\<exists>m. Msa_ctor text = Inr m)"
proof
  let ?m = "countGap (defineAlphabet (Msa_read text))"
  have "alphabet ?m = alphabet (defineAlphabet (Msa_read text))"
    "mali_seq ?m = mali_seq (Msa_read text)" "nseq ?m = nseq (Msa_read text)"
    "ncol ?m = ncol (Msa_read text)"
    by (simp_all add: countGap_def defineAlphabet_def)
  from countFreq_loop_defined [OF this]
  show "\<exists>total_nb tmp_freq. countFreq_loop ?m = Inr (total_nb, tmp_freq)" by blast
  show "\<exists>m. Msa_ctor text = Inr m" by (simp add: Msa_ctor_def Msa_analyse_Inr)
qed

theorem C10_witness:
  "rect (Msa_read ''>a\<newline>AC\<newline>>b\<newline>AG\<newline>'')
   \<and> (\<exists>total_nb tmp_freq.
        countFreq_loop (countGap (defineAlphabet (Msa_read ''>a\<newline>AC\<newline>>b\<newline>AG\<newline>'')))
          = Inr (total_nb, tmp_freq))
   \<and> (\<exists>m. Msa_ctor ''>a\<newline>AC\<newline>>b\<newline>AG\<newline>'' = Inr m)"
proof -
  have r: "rect (Msa_read ''>a\<newline>AC\<newline>>b\<newline>AG\<newline>'')"
    by (simp add: Msa_read_def read_eval rect_def Msa_init_def upper_case_def)
  from r C10_countFreq_lookups_succeed [OF r] show ?thesis by blast
qed

section \<open>Sums of floating-point values\<close>

definition fsum :: "float list \<Rightarrow> float" where
  "fsum xs = fold fadd xs (Fin 0)"

lemma fold_fadd_Fin: "fold fadd (map (\<lambda>x. Fin (g x)) xs) (Fin e) = Fin (e + sum_list (map g xs))"
  by (induction xs arbitrary: e) (simp_all add: add.assoc)

lemma fold_Fin_step:
  "(\<And>x e. x \<in> set xs \<Longrightarrow> step x (Fin e) = Fin (e + g x))
     \<Longrightarrow> fold step xs (Fin e) = Fin (e + sum_list (map g xs))"
  by (induction xs arbitrary: e) (simp_all add: add.assoc)

lemma length_getCol: "length (getCol m col) = nseq m"
  by (simp add: getCol_map)

lemma length_cells: "length (cells m) = ncol m * nseq m"
proof -
  have "sum_list (map (\<lambda>col. nseq m) xs) = length xs * nseq m" for xs :: "nat list"
    by (induction xs) simp_all
  from this [of "[0..<ncol m]"] show ?thesis
    by (simp add: cells_def length_concat comp_def length_getCol)
qed

lemma sum_count_alphabet:
  assumes "distinct A" "set cs \<subseteq> set A"
  shows "sum_list (map (\<lambda>i. count_list cs (A ! i)) [0..<length A]) = length cs"
proof -
  have "map (count_list cs) (map ((!) A) [0..<length A]) = map (count_list cs) A"
    by (simp only: map_nth)
  then have "map (\<lambda>i. count_list cs (A ! i)) [0..<length A] = map (count_list cs) A"
    by (simp add: comp_def)
  then have "sum_list (map (\<lambda>i. count_list cs (A ! i)) [0..<length A]) = sum (count_list cs) (set A)"
    using assms(1) by (simp add: sum_list_distinct_conv_sum_set)
  also have "\<dots> = length cs" using assms(2) by (simp add: sum_count_set)
  finally show ?thesis .
qed

section \<open>The frequencies of \<open>countFreq\<close>\<close>

lemma Msa_ctor_alphabet:
  assumes "Msa_ctor text = Inr m"
  shows "distinct (alphabet m)" and "set (alphabet m) = set (cells m)"
proof -
  from assms have a: "Msa_analyse (Msa_read text) = Inr m" by (simp add: Msa_ctor_def)
  note f = Msa_analyse_fields [OF a]
  from f(2,3,4) have c: "cells m = cells (Msa_read text)" by (intro cells_cong)
  from fold_add_symbol [of "[]" "cells (Msa_read text)"] f(5) c
  show "distinct (alphabet m)" and "set (alphabet m) = set (cells m)" by simp_all
qed

lemma Msa_ctor_aa_freq:
  assumes "Msa_ctor text = Inr m"
  shows "aa_freq m = map (\<lambda>i. fdiv (of_count (count_list (cells m) (alphabet m ! i)))
                                 (of_count (length (filter (\<lambda>c. \<not> is_gap c) (cells m)))))
                     [0..<length (alphabet m)]"
proof -
  from assms have a: "Msa_analyse (Msa_read text) = Inr m" by (simp add: Msa_ctor_def)
  note f = Msa_analyse_fields [OF a]
  from f(2,3,4) have c: "cells m = cells (Msa_read text)" by (intro cells_cong)
  from f(9) c show ?thesis by simp
qed

lemma getFreq_nth:
  assumes "Msa_ctor text = Inr m" and "i < length (alphabet m)"
  shows "getFreq m (alphabet m ! i) = Inr (aa_freq m ! i)"
proof -
  from Msa_ctor_alphabet [OF assms(1)] assms(2)
  have "str_find (alphabet m) (alphabet m ! i) = i" by (simp add: str_find_nth)
  with assms(2) show ?thesis by (simp add: getFreq_def getAaPos_def Let_def)
qed

lemma funpow_fadd_PInf: "(fadd PInf ^^ k) PInf = PInf"
  by (induction k) simp_all

lemma sum_list_real_div:
  "sum_list (map (\<lambda>i. real (f i) / t) xs) = real (sum_list (map f xs)) / t"
  by (induction xs) (simp_all add: add_divide_distrib)

text \<open>
  Claim C8.  For the model \<open>m\<close> the constructor builds, with at least one row
  and one column: \<open>getFreq\<close> of a symbol of the alphabet, a gap symbol or not, is
  the number of cells holding the symbol divided by the number of cells
  holding no gap; \<open>getFreq\<close> over the alphabet reads \<open>aa_freq\<close> entry by entry;
  and these frequencies sum to \<open>(nseq * ncol) / nonGapTotal\<close>.
\<close>

theorem C8_getFreq:
  assumes "Msa_ctor text = Inr m" and "rect m" and "0 < nseq m" and "0 < ncol m"
  shows "(s \<in> set (alphabet m) \<longrightarrow>
            getFreq m s = Inr (fdiv (of_count (count_list (cells m) s))
                                    (of_count (length (filter (\<lambda>c. \<not> is_gap c) (cells m))))))
       \<and> map (getFreq m) (alphabet m) = map Inr (aa_freq m)
       \<and> fsum (aa_freq m) = fdiv (of_count (nseq m * ncol m))
                                  (of_count (length (filter (\<lambda>c. \<not> is_gap c) (cells m))))"
proof (intro conjI impI)
  let ?A = "alphabet m" and ?T = "length (filter (\<lambda>c. \<not> is_gap c) (cells m))"
  note d = Msa_ctor_alphabet [OF assms(1)]
  note fr = Msa_ctor_aa_freq [OF assms(1)]
  have len: "length (aa_freq m) = length ?A" by (subst fr) simp
  show m: "map (getFreq m) ?A = map Inr (aa_freq m)"
    by (simp add: list_eq_iff_nth_eq len getFreq_nth [OF assms(1)])
  {
    assume s: "s \<in> set ?A"
    then have p: "str_find ?A s < length ?A" "?A ! str_find ?A s = s"
      by (simp_all add: str_find_less nth_str_find)
    from getFreq_nth [OF assms(1) p(1)] p(2)
    have "getFreq m s = Inr (aa_freq m ! str_find ?A s)" by simp
    also have "aa_freq m ! str_find ?A s = fdiv (of_count (count_list (cells m) s)) (of_count ?T)"
      by (subst fr) (simp add: p)
    finally show "getFreq m s = Inr (fdiv (of_count (count_list (cells m) s)) (of_count ?T))" .
  }
  have cells: "length (cells m) = nseq m * ncol m" by (simp add: length_cells mult.commute)
  show "fsum (aa_freq m) = fdiv (of_count (nseq m * ncol m)) (of_count ?T)"
  proof (cases "?T = 0")
    case False
    have "aa_freq m = map (\<lambda>i. Fin (real (count_list (cells m) (?A ! i)) / real ?T)) [0..<length ?A]"
      by (subst fr) (use False in \<open>simp add: of_count_def\<close>)
    then have "fsum (aa_freq m)
                 = Fin (sum_list (map (\<lambda>i. real (count_list (cells m) (?A ! i)) / real ?T) [0..<length ?A]))"
      by (simp add: fsum_def fold_fadd_Fin)
    also have "sum_list (map (\<lambda>i. real (count_list (cells m) (?A ! i)) / real ?T) [0..<length ?A])
                 = real (sum_list (map (\<lambda>i. count_list (cells m) (?A ! i)) [0..<length ?A])) / real ?T"
      by (rule sum_list_real_div)
    also have "\<dots> = real (nseq m * ncol m) / real ?T"
      using sum_count_alphabet [of ?A "cells m"] d cells by simp
    finally show ?thesis using False by (simp add: of_count_def)
  next
    case True
    from assms(3,4) cells have ne: "cells m \<noteq> []" by auto
    with d have K: "0 < length ?A" by auto
    have "i < length ?A \<Longrightarrow> 0 < count_list (cells m) (?A ! i)" for i
      using d(2) nth_mem [of i ?A] count_list_0_iff [of "cells m" "?A ! i"] by auto
    then have "aa_freq m = map (\<lambda>i. PInf) [0..<length ?A]"
      by (subst fr) (use True in \<open>simp add: of_count_def\<close>)
    then have "aa_freq m = replicate (length ?A) PInf" by (simp add: map_replicate_const)
    moreover from K obtain k where "length ?A = Suc k" by (cases "length ?A") auto
    ultimately have "fsum (aa_freq m) = PInf" by (simp add: fsum_def funpow_fadd_PInf)
    with True assms(3,4) show ?thesis by (simp add: of_count_def)
  qed
qed


lemma Msa_ctor_rows:
  assumes "Msa_ctor text = Inr m"
  shows "mali_seq m = mali_seq (Msa_read text)" "nseq m = nseq (Msa_read text)"
    "ncol m = ncol (Msa_read text)" "cells m = cells (Msa_read text)"
    "rect m = rect (Msa_read text)"
proof -
  from assms have a: "Msa_analyse (Msa_read text) = Inr m" by (simp add: Msa_ctor_def)
  note f = Msa_analyse_fields [OF a]
  from f show "mali_seq m = mali_seq (Msa_read text)" "nseq m = nseq (Msa_read text)"
    "ncol m = ncol (Msa_read text)" by simp_all
  from f(2,3,4) show "cells m = cells (Msa_read text)" by (intro cells_cong)
  from f(2,3,4) show "rect m = rect (Msa_read text)" by (simp add: rect_def)
qed

lemma Msa_ctor_total: "\<exists>m. Msa_ctor text = Inr m"
  by (simp add: Msa_ctor_def Msa_analyse_Inr)

theorem C8_witness:
  "\<exists>m. Msa_ctor ''>a\<newline>A-\<newline>>b\<newline>AG\<newline>'' = Inr m
       \<and> rect m \<and> 0 < nseq m \<and> 0 < ncol m \<and> CHR ''-'' \<in> set (alphabet m)
       \<and> getFreq m CHR ''-'' = Inr (Fin (1 / 3))
       \<and> map (getFreq m) (alphabet m) = map Inr (aa_freq m)
       \<and> fsum (aa_freq m) = Fin (4 / 3)"
proof -
  let ?t = "''>a\<newline>A-\<newline>>b\<newline>AG\<newline>''"
  obtain m where m: "Msa_ctor ?t = Inr m" using Msa_ctor_total by blast
  have r: "Msa_read ?t = Msa_init [''a'', ''b''] [''A-'', ''AG'']"
    by (simp add: Msa_read_def read_eval)
  note f = Msa_ctor_rows [OF m, unfolded r]
  have c: "cells m = ''AA-G''"
    by (simp add: f cells_def getCol_def Msa_init_def upper_case_def toupper_def)
  have h: "rect m" "0 < nseq m" "0 < ncol m"
    by (simp_all add: f rect_def Msa_init_def upper_case_def)
  have s: "CHR ''-'' \<in> set (alphabet m)"
    by (simp add: Msa_ctor_alphabet [OF m] c)
  from C8_getFreq [OF m h, of "CHR ''-''"] s c h m show ?thesis
    by (auto simp: of_count_def is_gap_def f Msa_init_def)
qed

section \<open>The column entropy of \<open>countEntropy\<close>\<close>

lemma getAaPos_present:
  "c \<in> set (alphabet m) \<Longrightarrow> nat (getAaPos m c) = str_find (alphabet m) c"
  using str_find_less [of c "alphabet m"] by (simp add: getAaPos_def)

lemma fold_lfreq:
  assumes "distinct (alphabet m)"
  shows "set cs \<subseteq> set (alphabet m) \<Longrightarrow>
     fold (\<lambda>c lfreq. let pos = nat (getAaPos m c) in lfreq[pos := fadd (lfreq ! pos) (Fin 1)]) cs
       (map (\<lambda>i. Fin (real (n i))) [0..<length (alphabet m)])
     = map (\<lambda>i. Fin (real (n i + count_list cs (alphabet m ! i)))) [0..<length (alphabet m)]"
proof (induction cs arbitrary: n)
  case Nil
  then show ?case by simp
next
  case (Cons c cs)
  let ?A = "alphabet m"
  define pos where "pos = str_find ?A c"
  from Cons.prems have cA: "c \<in> set ?A" by simp
  then have pos: "pos < length ?A" "?A ! pos = c" "nat (getAaPos m c) = pos"
    by (simp_all add: pos_def str_find_less nth_str_find getAaPos_present)
  define n' where "n' = n(pos := n pos + 1)"
  have step: "(map (\<lambda>i. Fin (real (n i))) [0..<length ?A])
                 [pos := fadd (map (\<lambda>i. Fin (real (n i))) [0..<length ?A] ! pos) (Fin 1)]
              = map (\<lambda>i. Fin (real (n' i))) [0..<length ?A]"
    using pos(1) by (intro nth_equalityI) (auto simp: n'_def nth_list_update)
  have "map (\<lambda>i. Fin (real (n' i + count_list cs (?A ! i)))) [0..<length ?A]
          = map (\<lambda>i. Fin (real (n i + count_list (c # cs) (?A ! i)))) [0..<length ?A]"
  proof (rule map_cong [OF refl])
    fix i assume "i \<in> set [0..<length ?A]"
    then have i: "i < length ?A" by simp
    show "Fin (real (n' i + count_list cs (?A ! i))) = Fin (real (n i + count_list (c # cs) (?A ! i)))"
    proof (cases "i = pos")
      case True
      with pos show ?thesis by (simp add: n'_def)
    next
      case False
      with assms i pos have "?A ! i \<noteq> c" by (auto simp: nth_eq_iff_index_eq)
      with False show ?thesis by (simp add: n'_def)
    qed
  qed
  with Cons.IH [of n'] Cons.prems step pos(3) show ?case by (simp add: Let_def)
qed

lemma column_lfreq_counts:
  assumes "distinct (alphabet m)" "set (getCol m col) \<subseteq> set (alphabet m)"
  shows "column_lfreq m col
           = map (\<lambda>i. Fin (real (count_list (getCol m col) (alphabet m ! i)))) [0..<length (alphabet m)]"
proof -
  have z: "replicate (length (alphabet m)) (Fin 0)
             = map (\<lambda>i. Fin (real ((\<lambda>i. 0::nat) i))) [0..<length (alphabet m)]"
    by (simp add: map_replicate_const)
  have "column_lfreq m col
          = fold (\<lambda>c lfreq. let pos = nat (getAaPos m c) in lfreq[pos := fadd (lfreq ! pos) (Fin 1)])
              (getCol m col) (replicate (length (alphabet m)) (Fin 0))"
    unfolding column_lfreq_def
    using fold_rows [THEN fun_cong,
        of "\<lambda>c lfreq. let pos = nat (getAaPos m c) in lfreq[pos := fadd (lfreq ! pos) (Fin 1)]" m col]
    by simp
  also have "\<dots> = map (\<lambda>i. Fin (real (0 + count_list (getCol m col) (alphabet m ! i))))
                      [0..<length (alphabet m)]"
    unfolding z by (rule fold_lfreq [OF assms])
  finally show ?thesis by simp
qed

text \<open>The sum the loop over the alphabet accumulates in \<open>entropy[col]\<close> before the division.\<close>

definition shannon :: "Msa \<Rightarrow> nat \<Rightarrow> real" where
  "shannon m col =
     (\<Sum>i<length (alphabet m).
        let f = real (count_list (getCol m col) (alphabet m ! i)) / real (nseq m)
        in if 0 < f then - (f * ln f) else 0)"

lemma column_entropy_shannon:
  assumes "distinct (alphabet m)" "set (getCol m col) \<subseteq> set (alphabet m)" "0 < nseq m"
  shows "column_entropy m col
           = fdiv (Fin (shannon m col)) (flog (of_count (size_t_minus (length (alphabet m)) 1)))"
proof -
  let ?f = "\<lambda>i. real (count_list (getCol m col) (alphabet m ! i)) / real (nseq m)"
  let ?g = "\<lambda>i. if 0 < ?f i then - (?f i * ln (?f i)) else 0"
  have "fold (\<lambda>i e.
          let f = fdiv (column_lfreq m col ! i) (of_count (nseq m))
          in if fgt f (Fin 0)
             then (if feq f (Fin 1) then e else fsub e (fmul f (flog f)))
             else e)
        [0..<length (alphabet m)] (Fin 0) = Fin (0 + sum_list (map ?g [0..<length (alphabet m)]))"
  proof (rule fold_Fin_step)
    fix i e assume "i \<in> set [0..<length (alphabet m)]"
    then have i: "i < length (alphabet m)" by simp
    have l: "fdiv (column_lfreq m col ! i) (of_count (nseq m)) = Fin (?f i)"
      using assms(3) i by (simp add: column_lfreq_counts [OF assms(1,2)] of_count_def)
    show "(let f = fdiv (column_lfreq m col ! i) (of_count (nseq m))
          in if fgt f (Fin 0)
             then (if feq f (Fin 1) then Fin e else fsub (Fin e) (fmul f (flog f)))
             else Fin e) = Fin (e + ?g i)"
      unfolding l by (simp add: Let_def feq_def fsub_def)
  qed
  moreover have "sum_list (map ?g [0..<length (alphabet m)]) = shannon m col"
    by (simp add: shannon_def Let_def interv_sum_list_conv_sum_set_nat atLeast0LessThan)
  ultimately show ?thesis by (simp add: column_entropy_def)
qed

lemma getCol_subset_cells: "col < ncol m \<Longrightarrow> set (getCol m col) \<subseteq> set (cells m)"
  by (auto simp: cells_def)

lemma Msa_ctor_entropy:
  assumes "Msa_ctor text = Inr m" "0 < nseq m" "col < ncol m"
  shows "entropy m ! col
           = fdiv (Fin (shannon m col)) (flog (of_count (size_t_minus (length (alphabet m)) 1)))"
proof -
  from assms(1) have a: "Msa_analyse (Msa_read text) = Inr m" by (simp add: Msa_ctor_def)
  note f = Msa_analyse_fields [OF a]
  note d = Msa_ctor_alphabet [OF assms(1)]
  from assms(3) f have "entropy m ! col = column_entropy m col" by simp
  also have "\<dots> = fdiv (Fin (shannon m col)) (flog (of_count (size_t_minus (length (alphabet m)) 1)))"
    using d getCol_subset_cells [OF assms(3)] assms(2) by (intro column_entropy_shannon) simp_all
  finally show ?thesis .
qed

lemma shannon_single_symbol:
  assumes "set (getCol m col) = {c}" "0 < nseq m"
  shows "shannon m col = 0"
proof -
  have "(let f = real (count_list (getCol m col) (alphabet m ! i)) / real (nseq m)
         in if 0 < f then - (f * ln f) else 0) = 0" for i
  proof (cases "alphabet m ! i = c")
    case True
    from assms(1) have "filter ((=) c) (getCol m col) = getCol m col"
      by (intro filter_True) auto
    then have "count_list (getCol m col) c = nseq m"
      by (simp add: count_list_eq_length_filter length_getCol)
    with True assms(2) show ?thesis by (simp add: Let_def)
  next
    case False
    with assms(1) have "count_list (getCol m col) (alphabet m ! i) = 0"
      by (simp add: count_list_0_iff)
    then show ?thesis by (simp add: Let_def)
  qed
  then show ?thesis by (simp add: shannon_def)
qed

lemma entropy_single_symbol:
  assumes "Msa_ctor text = Inr m" "0 < nseq m" "col < ncol m" "set (getCol m col) = {c}"
  shows "entropy m ! col = (if length (alphabet m) = 2 then NaN else Fin 0)"
proof -
  from Msa_ctor_alphabet [OF assms(1)] getCol_subset_cells [OF assms(3)] assms(4)
  have "0 < length (alphabet m)" by auto
  then consider "length (alphabet m) = 1" | "length (alphabet m) = 2" | "3 \<le> length (alphabet m)"
    by linarith
  then show ?thesis
  proof cases
    case 1
    then show ?thesis
      by (simp add: Msa_ctor_entropy [OF assms(1-3)] shannon_single_symbol [OF assms(4,2)]
          size_t_minus_def of_count_def)
  next
    case 2
    then show ?thesis
      by (simp add: Msa_ctor_entropy [OF assms(1-3)] shannon_single_symbol [OF assms(4,2)]
          size_t_minus_def of_count_def)
  next
    case 3
    then have "0 < ln (real (length (alphabet m) - 1))" by simp
    with 3 show ?thesis
      by (simp add: Msa_ctor_entropy [OF assms(1-3)] shannon_single_symbol [OF assms(4,2)]
          size_t_minus_def of_count_def)
  qed
qed

text \<open>
  Claim C6 (a column with one distinct non-gap symbol and no gap has entropy
  exactly 0).  The alignment of the two rows \<open>AC\<close> and \<open>AC\<close>: its alphabet has two
  symbols, column 0 holds \<open>A\<close> in every row, and \<open>entropy[0]\<close> is \<open>0.0 / log(1)\<close>, which
  is \<open>0.0 / 0.0\<close>, NaN.
\<close>

theorem C6_entropy_two_symbol_alphabet:
  "\<not> isl (Msa_ctor ''>a\<newline>AC\<newline>>b\<newline>AC\<newline>'')
   \<and> alphabet (projr (Msa_ctor ''>a\<newline>AC\<newline>>b\<newline>AC\<newline>'')) = ''AC''
   \<and> getCol (projr (Msa_ctor ''>a\<newline>AC\<newline>>b\<newline>AC\<newline>'')) 0 = ''AA''
   \<and> entropy (projr (Msa_ctor ''>a\<newline>AC\<newline>>b\<newline>AC\<newline>'')) ! 0 = NaN"
proof -
  let ?t = "''>a\<newline>AC\<newline>>b\<newline>AC\<newline>''"
  obtain m where m: "Msa_ctor ?t = Inr m" using Msa_ctor_total by blast
  have r: "Msa_read ?t = Msa_init [''a'', ''b''] [''AC'', ''AC'']"
    by (simp add: Msa_read_def read_eval)
  note f = Msa_ctor_rows [OF m, unfolded r]
  have c: "getCol m 0 = ''AA''"
    by (simp add: f getCol_def Msa_init_def upper_case_def toupper_def)
  have a: "alphabet m = ''AC''"
    using Msa_analyse_fields(5) [OF m [unfolded Msa_ctor_def r]]
    by (simp add: cells_def getCol_def Msa_init_def upper_case_def toupper_def add_symbol_def
        str_find_def npos_def)
  have h: "0 < nseq m" "0 < ncol m" by (simp_all add: f Msa_init_def)
  have "set (getCol m 0) = {CHR ''A''}" by (simp add: c)
  from entropy_single_symbol [OF m h this] a have "entropy m ! 0 = NaN" by simp
  with m a c show ?thesis by simp
qed

text \<open>
  Claim C7 (every column entropy is in [0,1], and a column in which every symbol
  of the alphabet occurs equally often has entropy exactly 1).  The comment above
  \<open>countEntropy\<close> gives the normalised entropy \<open>- 1/log(K) \<Sum> p log p\<close> with \<open>K\<close> the
  length of the alphabet; the code divides by \<open>log(alphabet.size()-1)\<close>, ``because
  gaps are in the alphabet''.  The alignment of the three rows \<open>A\<close>, \<open>C\<close> and \<open>G\<close>
  has no gap: its alphabet is \<open>ACG\<close>, the one column holds each of the three
  symbols once, its Shannon entropy \<open>- \<Sum> p log p\<close> is \<open>log 3\<close>, and \<open>entropy[0]\<close>
  is \<open>log 3 / log 2\<close>, about 1.585, where the comment's formula gives
  \<open>log 3 / log 3 = 1\<close>.  The value is the one of exact arithmetic; the \<open>float\<close>
  the program stores is its rounding, and more than 1 as well.
\<close>

theorem C7_entropy_gap_free_alphabet:
  "\<not> isl (Msa_ctor ''>a\<newline>A\<newline>>b\<newline>C\<newline>>c\<newline>G\<newline>'')
   \<and> alphabet (projr (Msa_ctor ''>a\<newline>A\<newline>>b\<newline>C\<newline>>c\<newline>G\<newline>'')) = ''ACG''
   \<and> getCol (projr (Msa_ctor ''>a\<newline>A\<newline>>b\<newline>C\<newline>>c\<newline>G\<newline>'')) 0 = ''ACG''
   \<and> shannon (projr (Msa_ctor ''>a\<newline>A\<newline>>b\<newline>C\<newline>>c\<newline>G\<newline>'')) 0 = ln 3
   \<and> entropy (projr (Msa_ctor ''>a\<newline>A\<newline>>b\<newline>C\<newline>>c\<newline>G\<newline>'')) ! 0
         = Fin (ln 3 / ln 2)
   \<and> 1 < ln 3 / ln (2::real)"
proof -
  let ?t = "''>a\<newline>A\<newline>>b\<newline>C\<newline>>c\<newline>G\<newline>''"
  obtain m where m: "Msa_ctor ?t = Inr m" using Msa_ctor_total by blast
  have r: "Msa_read ?t = Msa_init [''a'', ''b'', ''c''] [''A'', ''C'', ''G'']"
    by (simp add: Msa_read_def read_eval)
  note f = Msa_ctor_rows [OF m, unfolded r]
  have c: "getCol m 0 = ''ACG''"
    by (simp add: f getCol_def Msa_init_def upper_case_def toupper_def)
  have a: "alphabet m = ''ACG''"
    using Msa_analyse_fields(5) [OF m [unfolded Msa_ctor_def r]]
    by (simp add: cells_def getCol_def Msa_init_def upper_case_def toupper_def add_symbol_def
        str_find_def npos_def)
  have h: "0 < nseq m" "0 < ncol m" "nseq m = 3" by (simp_all add: f Msa_init_def)
  have s: "shannon m 0 = ln 3"
    by (simp add: shannon_def a c h Let_def lessThan_nat_numeral lessThan_Suc ln_div)
  with Msa_ctor_entropy [OF m h(1,2)] a have "entropy m ! 0 = Fin (ln 3 / ln 2)"
    by (simp add: size_t_minus_def of_count_def)
  moreover have "1 < ln 3 / ln (2::real)" by simp
  ultimately show ?thesis using m a c s by simp
qed

section \<open>The sequence weights\<close>

text \<open>
  The formula of Henikoff and Henikoff as the specification states it:
  \<open>distinct_symbols m x\<close> is \<open>k_x\<close>, the number of distinct symbols in column \<open>x\<close>;
  \<open>rows_sharing m x i\<close> is \<open>n_{x,i}\<close>, the number of rows whose symbol in column \<open>x\<close>
  is that of row \<open>i\<close>; \<open>henikoff m i\<close> is \<open>(1/L) * \<Sum>_x 1 / (k_x * n_{x,i})\<close>.
\<close>

definition distinct_symbols :: "Msa \<Rightarrow> nat \<Rightarrow> nat" where
  "distinct_symbols m x = card ((\<lambda>j. getSymbol m j x) ` {..<nseq m})"

definition rows_sharing :: "Msa \<Rightarrow> nat \<Rightarrow> nat \<Rightarrow> nat" where
  "rows_sharing m x i = card {j. j < nseq m \<and> getSymbol m j x = getSymbol m i x}"

definition henikoff :: "Msa \<Rightarrow> nat \<Rightarrow> real" where
  "henikoff m i =
     (1 / real (ncol m)) *
     (\<Sum>x<ncol m. 1 / (real (distinct_symbols m x) * real (rows_sharing m x i)))"

lemma set_getCol: "set (getCol m x) = (\<lambda>j. getSymbol m j x) ` {..<nseq m}"
  by (auto simp: getCol_map getSymbol_def)

lemma count_list_map_upt: "count_list (map f [0..<n]) c = card {j. j < n \<and> f j = c}"
proof (induction n)
  case 0
  then show ?case by simp
next
  case (Suc n)
  have "{j. j < Suc n \<and> f j = c} = (if f n = c then insert n {j. j < n \<and> f j = c}
                                       else {j. j < n \<and> f j = c})"
    by (auto simp: less_Suc_eq)
  with Suc show ?case by simp
qed

lemma count_getCol: "count_list (getCol m x) c = card {j. j < nseq m \<and> getSymbol m j x = c}"
  by (simp add: getCol_map getSymbol_def count_list_map_upt)

lemma fold_count:
  "fold (\<lambda>c n. if s = c then n + 1 else n) cs (k::nat) = k + count_list cs s"
  by (induction cs arbitrary: k) auto

lemma count_rows_loop:
  "fold (\<lambda>seq n. if getSymbol m i x = getSymbol m seq x then n + 1 else n) [0..<nseq m] (0::nat)
     = rows_sharing m x i"
proof -
  from fold_rows [THEN fun_cong, of "\<lambda>c n. if getSymbol m i x = c then n + 1 else n" m x "0::nat"]
  have "fold (\<lambda>seq n. if getSymbol m i x = getSymbol m seq x then n + 1 else n) [0..<nseq m] (0::nat)
          = fold (\<lambda>c n. if getSymbol m i x = c then n + 1 else n) (getCol m x) 0"
    by (simp add: getSymbol_def)
  then show ?thesis by (simp add: fold_count count_getCol rows_sharing_def)
qed

lemma length_fold_add_symbol: "length (fold add_symbol cs []) = card (set cs)"
  using fold_add_symbol [of "[]" cs] distinct_card [of "fold add_symbol cs []"] by simp

lemma Msa_ctor_nb_type:
  assumes "Msa_ctor text = Inr m" "x < ncol m"
  shows "getNtype m x = distinct_symbols m x"
proof -
  from assms(1) have a: "Msa_analyse (Msa_read text) = Inr m" by (simp add: Msa_ctor_def)
  note f = Msa_analyse_fields [OF a]
  have e: "nb_type (Msa_read text) = []"
    by (simp add: Msa_read_def Msa_init_def split: prod.splits)
  from f(2,3) have "getCol (Msa_read text) = getCol m" by (intro getCol_cong) simp_all
  with f(8) e assms(2) f(4) show ?thesis
    by (simp add: getNtype_def length_fold_add_symbol distinct_symbols_def set_getCol)
qed

lemma rows_sharing_pos: "i < nseq m \<Longrightarrow> 0 < rows_sharing m x i"
proof -
  assume "i < nseq m"
  then have "i \<in> {j. j < nseq m \<and> getSymbol m j x = getSymbol m i x}" by simp
  moreover have "finite {j. j < nseq m \<and> getSymbol m j x = getSymbol m i x}" by simp
  ultimately show ?thesis unfolding rows_sharing_def by (metis card_gt_0_iff empty_iff)
qed

lemma distinct_symbols_pos: "0 < nseq m \<Longrightarrow> 0 < distinct_symbols m x"
  by (auto simp: distinct_symbols_def card_gt_0_iff)

lemma calcSeqWeight_henikoff:
  assumes "Msa_ctor text = Inr m" and "0 < ncol m" and "i < nseq m"
  shows "WEntStat_calcSeqWeight m i = Fin (henikoff m i)"
proof -
  let ?g = "\<lambda>x. 1 / (real (distinct_symbols m x) * real (rows_sharing m x i))"
  have "fold (\<lambda>x w.
          let k = getNtype m x;
              n = fold (\<lambda>seq n. if getSymbol m i x = getSymbol m seq x
                                  then n + 1 else n) [0..<nseq m] 0
          in fadd w (fdiv (Fin 1) (of_count (n * k))))
        [0..<ncol m] (Fin 0) = Fin (0 + sum_list (map ?g [0..<ncol m]))"
  proof (rule fold_Fin_step)
    fix x e assume "x \<in> set [0..<ncol m]"
    then have x: "x < ncol m" by simp
    from assms(3) have "0 < rows_sharing m x i" "0 < distinct_symbols m x"
      by (auto intro: rows_sharing_pos distinct_symbols_pos)
    then show "(let k = getNtype m x;
              n = fold (\<lambda>seq n. if getSymbol m i x = getSymbol m seq x
                                  then n + 1 else n) [0..<nseq m] 0
          in fadd (Fin e) (fdiv (Fin 1) (of_count (n * k)))) = Fin (e + ?g x)"
      by (simp add: count_rows_loop Msa_ctor_nb_type [OF assms(1) x] of_count_def mult.commute)
  qed
  then show ?thesis
    using assms(2)
    by (simp add: WEntStat_calcSeqWeight_def getNcol_def getNseq_def of_count_def henikoff_def
        interv_sum_list_conv_sum_set_nat atLeast0LessThan Let_def)
qed

lemma calcSeqWeight_same:
  "JensenStat_calcSeqWeight = WEntStat_calcSeqWeight"
  "TridStat_calcSeqWeight = WEntStat_calcSeqWeight"
  by (simp_all add: fun_eq_iff JensenStat_calcSeqWeight_def WEntStat_calcSeqWeight_def
      TridStat_calcSeqWeight_def)

text \<open>
  Claim C2.  For the model the constructor builds, with at least one row and
  one column, the weight each of the three statistics computes for row \<open>i\<close> is
  the finite number \<open>(1/L) * \<Sum>_x 1 / (k_x * n_{x,i})\<close>.
\<close>

theorem C2_calcSeqWeight:
  assumes "Msa_ctor text = Inr m" and "rect m" and "0 < nseq m" and "0 < ncol m" and "i < nseq m"
  shows "WEntStat_calcSeqWeight m i = Fin (henikoff m i)
       \<and> JensenStat_calcSeqWeight m i = Fin (henikoff m i)
       \<and> TridStat_calcSeqWeight m i = Fin (henikoff m i)"
  using calcSeqWeight_henikoff [OF assms(1,4,5)] by (simp add: calcSeqWeight_same)


theorem C2_witness:
  "\<exists>m. Msa_ctor ''>a\<newline>AC\<newline>>b\<newline>AG\<newline>'' = Inr m
       \<and> rect m \<and> 0 < nseq m \<and> 0 < ncol m \<and> 1 < nseq m
       \<and> WEntStat_calcSeqWeight m 1 = Fin (henikoff m 1)
       \<and> JensenStat_calcSeqWeight m 1 = Fin (henikoff m 1)
       \<and> TridStat_calcSeqWeight m 1 = Fin (henikoff m 1)"
proof -
  let ?t = "''>a\<newline>AC\<newline>>b\<newline>AG\<newline>''"
  obtain m where m: "Msa_ctor ?t = Inr m" using Msa_ctor_total by blast
  have r: "Msa_read ?t = Msa_init [''a'', ''b''] [''AC'', ''AG'']"
    by (simp add: Msa_read_def read_eval)
  note f = Msa_ctor_rows [OF m, unfolded r]
  have h: "rect m" "0 < nseq m" "0 < ncol m" "1 < nseq m"
    by (simp_all add: f rect_def Msa_init_def upper_case_def)
  from C2_calcSeqWeight [OF m h] m h show ?thesis by blast
qed

section \<open>The weighted entropy score\<close>

text \<open>
  The formulas of the specification: \<open>weighted_proba m x a\<close> is \<open>p_a\<close>, the sum of
  the weights of the rows whose symbol in column \<open>x\<close> is \<open>a\<close>; \<open>wentropy m x\<close> is
  \<open>H(x) = - \<lambda> \<Sum>_a p_a log(p_a)\<close> over the symbols with \<open>p_a \<noteq> 0\<close>, with
  \<open>\<lambda> = 1 / log(min(|alphabet|, nseq))\<close>.
\<close>

definition weighted_proba :: "Msa \<Rightarrow> nat \<Rightarrow> char \<Rightarrow> real" where
  "weighted_proba m x a = (\<Sum>j | j < nseq m \<and> getSymbol m j x = a. henikoff m j)"

definition wentropy :: "Msa \<Rightarrow> nat \<Rightarrow> real" where
  "wentropy m x =
     - (1 / ln (real (min (length (alphabet m)) (nseq m)))) *
       (\<Sum>a\<in>set (alphabet m).
          if weighted_proba m x a \<noteq> 0 then weighted_proba m x a * ln (weighted_proba m x a) else 0)"

lemma MIN_of_min: "MIN_of x y = min x y"
  by (simp add: MIN_of_def min_def)

lemma henikoff_pos:
  assumes "0 < ncol m" "i < nseq m"
  shows "0 < henikoff m i"
proof -
  have "0 < 1 / (real (distinct_symbols m x) * real (rows_sharing m x i))" for x
    using rows_sharing_pos [OF assms(2), of x] distinct_symbols_pos [of m x] assms(2) by simp
  then have "0 < (\<Sum>x<ncol m. 1 / (real (distinct_symbols m x) * real (rows_sharing m x i)))"
    using assms(1) by (intro sum_pos) auto
  with assms(1) show ?thesis by (simp add: henikoff_def)
qed

lemma weighted_proba_nonneg:
  assumes "0 < ncol m"
  shows "0 \<le> weighted_proba m x a"
  unfolding weighted_proba_def using henikoff_pos [OF assms] by (intro sum_nonneg) (simp add: less_imp_le)

lemma sum_nth_distinct: "distinct A \<Longrightarrow> (\<Sum>i<length A. F (A ! i)) = sum F (set A)"
proof -
  assume d: "distinct A"
  have "map F (map ((!) A) [0..<length A]) = map F A" by (simp only: map_nth)
  then have "map (\<lambda>i. F (A ! i)) [0..<length A] = map F A" by (simp add: comp_def)
  then have "sum_list (map (\<lambda>i. F (A ! i)) [0..<length A]) = sum F (set A)"
    using d by (simp add: sum_list_distinct_conv_sum_set)
  then show ?thesis by (simp add: interv_sum_list_conv_sum_set_nat atLeast0LessThan)
qed

text \<open>The loop over the rows that sums the weights of the rows holding symbol \<open>a\<close>.\<close>

lemma proba_loop:
  assumes "\<And>j. j < nseq m \<Longrightarrow> sw ! j = Fin (henikoff m j)"
  shows "fold (\<lambda>j p. if getSymbol m j x = a then fadd p (sw ! j) else p) [0..<nseq m] (Fin 0)
           = Fin (weighted_proba m x a)"
proof -
  let ?g = "\<lambda>j. if getSymbol m j x = a then henikoff m j else 0"
  have "fold (\<lambda>j p. if getSymbol m j x = a then fadd p (sw ! j) else p) [0..<nseq m] (Fin 0)
          = Fin (0 + sum_list (map ?g [0..<nseq m]))"
    by (rule fold_Fin_step) (simp add: assms)
  moreover have "sum_list (map ?g [0..<nseq m]) = weighted_proba m x a"
    using sum.inter_filter [of "{..<nseq m}" "henikoff m" "\<lambda>j. getSymbol m j x = a"]
    by (simp add: weighted_proba_def interv_sum_list_conv_sum_set_nat atLeast0LessThan)
  ultimately show ?thesis by simp
qed

lemma WEntStat_weights:
  assumes "Msa_ctor text = Inr m" "0 < ncol m" "j < nseq m"
  shows "map (WEntStat_calcSeqWeight m) [0..<getNseq m] ! j = Fin (henikoff m j)"
  using assms by (simp add: getNseq_def calcSeqWeight_henikoff)

lemma WEntStat_col_cons_wentropy:
  assumes "Msa_ctor text = Inr m" "0 < ncol m" "2 \<le> min (length (alphabet m)) (nseq m)"
  shows "WEntStat_col_cons m (map (WEntStat_calcSeqWeight m) [0..<getNseq m]) x = Fin (wentropy m x)"
proof -
  let ?sw = "map (WEntStat_calcSeqWeight m) [0..<getNseq m]"
  let ?A = "alphabet m"
  let ?p = "\<lambda>a. weighted_proba m x a"
  let ?g = "\<lambda>i. if ?p (?A ! i) \<noteq> 0 then - (?p (?A ! i) * ln (?p (?A ! i))) else 0"
  have p: "WEntStat_proba m ?sw x i = Fin (?p (?A ! i))" for i
    unfolding WEntStat_proba_def getNseq_def getAlphabet_def
    by (rule proba_loop) (use WEntStat_weights [OF assms(1,2)] in \<open>simp add: getNseq_def\<close>)
  have "fold (\<lambda>a c.
              if fne (WEntStat_proba m ?sw x a) (Fin 0)
              then fsub c (fmul (WEntStat_proba m ?sw x a) (flog (WEntStat_proba m ?sw x a)))
              else c)
            [0..<length (getAlphabet m)] (Fin 0) = Fin (0 + sum_list (map ?g [0..<length (getAlphabet m)]))"
  proof (rule fold_Fin_step)
    fix i e
    from weighted_proba_nonneg [OF assms(2), of x "?A ! i"]
    have "?p (?A ! i) \<noteq> 0 \<Longrightarrow> 0 < ?p (?A ! i)" by simp
    then show "(if fne (WEntStat_proba m ?sw x i) (Fin 0)
              then fsub (Fin e) (fmul (WEntStat_proba m ?sw x i) (flog (WEntStat_proba m ?sw x i)))
              else Fin e) = Fin (e + ?g i)"
      by (simp add: p fne_def feq_def fsub_def)
  qed
  moreover have "sum_list (map ?g [0..<length (getAlphabet m)])
      = - (\<Sum>a\<in>set ?A. if ?p a \<noteq> 0 then ?p a * ln (?p a) else 0)"
  proof -
    have "sum_list (map ?g [0..<length (getAlphabet m)]) = (\<Sum>i<length ?A. ?g i)"
      by (simp add: interv_sum_list_conv_sum_set_nat atLeast0LessThan getAlphabet_def)
    also have "\<dots> = (\<Sum>a\<in>set ?A. if ?p a \<noteq> 0 then - (?p a * ln (?p a)) else 0)"
      using sum_nth_distinct [OF Msa_ctor_alphabet(1) [OF assms(1)],
          of "\<lambda>a. if ?p a \<noteq> 0 then - (?p a * ln (?p a)) else 0"] by simp
    also have "\<dots> = - (\<Sum>a\<in>set ?A. if ?p a \<noteq> 0 then ?p a * ln (?p a) else 0)"
      by (simp add: sum_negf [symmetric] if_distrib cong: if_cong)
    finally show ?thesis .
  qed
  ultimately have f: "fold (\<lambda>a c.
              if fne (WEntStat_proba m ?sw x a) (Fin 0)
              then fsub c (fmul (WEntStat_proba m ?sw x a) (flog (WEntStat_proba m ?sw x a)))
              else c)
            [0..<length (getAlphabet m)] (Fin 0)
          = Fin (- (\<Sum>a\<in>set ?A. if ?p a \<noteq> 0 then ?p a * ln (?p a) else 0))"
    by simp
  define k where "k = min (length ?A) (nseq m)"
  from assms(3) have "1 < real k" by (simp add: k_def)
  then have "0 < real k" "ln (real k) \<noteq> 0" by simp_all
  then have "fdiv (Fin 1) (flog (of_count k)) = Fin (1 / ln (real k))"
    by (simp add: of_count_def)
  then have l: "fdiv (Fin 1) (flog (of_count (MIN_of (length (getAlphabet m)) (getNseq m))))
               = Fin (1 / ln (real (min (length ?A) (nseq m))))"
    by (simp add: MIN_of_min getAlphabet_def getNseq_def k_def)
  show ?thesis unfolding WEntStat_col_cons_def Let_def f l by (simp add: wentropy_def)
qed

text \<open>
  Claim C1.  For the model the constructor builds, with at least one row, one
  column and \<open>min(|alphabet|, nseq) \<ge> 2\<close>, and an output file that can be opened,
  \<open>WEntStat::calculateStatistic\<close> writes exactly \<open>ncol\<close> values, that of column 0
  first, and the value of column \<open>x\<close> is the finite number
  \<open>(1 - H(x)) * (1 - gapCount(x) / nseq)\<close>.
\<close>

theorem C1_wentropy_output:
  assumes "Msa_ctor text = Inr m" and "rect m" and "1 \<le> nseq m" and "1 \<le> ncol m"
    and "2 \<le> min (length (alphabet m)) (nseq m)" and "writable w"
  shows "\<exists>st w'. WEntStat_calculateStatistic m w = Inr (st, w')
           \<and> out_file w' =
               Some (map (\<lambda>x. Fin ((1 - wentropy m x) * (1 - real (getGap m x) / real (nseq m))))
                       [0..<ncol m])"
proof -
  from assms(4) have c: "0 < ncol m" by simp
  from assms(3) have n: "0 < nseq m" by simp
  have "map (\<lambda>col. fmul (fsub (Fin 1)
                 (map (WEntStat_col_cons m (map (WEntStat_calcSeqWeight m) [0..<getNseq m]))
                    [0..<ncol m] ! col))
               (fsub (Fin 1) (fdiv (of_count (getGap m col)) (of_count (nseq m)))))
          [0..<ncol m]
      = map (\<lambda>x. Fin ((1 - wentropy m x) * (1 - real (getGap m x) / real (nseq m)))) [0..<ncol m]"
    by (rule map_cong [OF refl])
      (use n in \<open>simp add: WEntStat_col_cons_wentropy [OF assms(1) c assms(5)] of_count_def fsub_def\<close>)
  with assms(6) show ?thesis
    by (simp add: WEntStat_calculateStatistic_def Let_def getNcol_def getNseq_def)
qed


theorem C1_witness:
  "\<exists>m. Msa_ctor ''>a\<newline>AC\<newline>>b\<newline>AG\<newline>'' = Inr m
       \<and> rect m \<and> 1 \<le> nseq m \<and> 1 \<le> ncol m \<and> 2 \<le> min (length (alphabet m)) (nseq m)
       \<and> (\<exists>st w'. WEntStat_calculateStatistic m \<lparr>console = [], writable = True, out_file = None\<rparr>
                      = Inr (st, w')
            \<and> out_file w' =
                 Some (map (\<lambda>x. Fin ((1 - wentropy m x) * (1 - real (getGap m x) / real (nseq m))))
                         [0..<ncol m]))"
proof -
  let ?t = "''>a\<newline>AC\<newline>>b\<newline>AG\<newline>''"
  obtain m where m: "Msa_ctor ?t = Inr m" using Msa_ctor_total by blast
  have r: "Msa_read ?t = Msa_init [''a'', ''b''] [''AC'', ''AG'']"
    by (simp add: Msa_read_def read_eval)
  note f = Msa_ctor_rows [OF m, unfolded r]
  have a: "alphabet m = ''ACG''"
    using Msa_analyse_fields(5) [OF m [unfolded Msa_ctor_def r]]
    by (simp add: cells_def getCol_def Msa_init_def upper_case_def toupper_def add_symbol_def
        str_find_def npos_def)
  have h: "rect m" "1 \<le> nseq m" "1 \<le> ncol m" "2 \<le> min (length (alphabet m)) (nseq m)"
    by (simp_all add: f a rect_def Msa_init_def upper_case_def)
  have w: "writable \<lparr>console = [], writable = True, out_file = None\<rparr>" by simp
  from C1_wentropy_output [OF m h w] m h show ?thesis by blast
qed

section \<open>The trident score of a column without residue types\<close>

lemma TridStat_r_no_type: "TridStat_ntype msa x = 0 \<Longrightarrow> TridStat_r score_mat msa x = Fin 1"
  by (simp add: TridStat_r_def Let_def)

lemma fpow_zero: "fgt b (Fin 0) \<Longrightarrow> fpow (Fin 0) b = Fin 0"
  by (cases b) auto

lemma TridStat_score_r_one:
  assumes "fgt (factor_b opts) (Fin 0)"
  shows "TridStat_score opts tx (Fin 1) gx =
           (if (\<exists>u. fpow (fsub (Fin 1) tx) (factor_a opts) = Fin u)
               \<and> (\<exists>v. fpow (fsub (Fin 1) gx) (factor_c opts) = Fin v)
            then Fin 0 else NaN)"
proof -
  have b: "fpow (fsub (Fin 1) (Fin 1)) (factor_b opts) = Fin 0"
    using assms by (simp add: fsub_def fpow_zero)
  show ?thesis
    unfolding TridStat_score_def b
    by (cases "fpow (fsub (Fin 1) tx) (factor_a opts)"; cases "fpow (fsub (Fin 1) gx) (factor_c opts)")
      simp_all
qed

lemma upt_small: "[0..<2] = [0, 1]" "[0..<3] = [0, 1, 2]"
  by (simp_all add: upt_rec)

lemma single_sequence_model:
  assumes "Msa_ctor ''>s\<newline>A-\<newline>'' = Inr m"
  shows "mali_seq m = [''A-'']" "nseq m = 1" "ncol m = 2" "alphabet m = ''A-''" "nb_type m = [1, 1]"
proof -
  have r: "Msa_read ''>s\<newline>A-\<newline>'' = Msa_init [''s''] [''A-'']"
    by (simp add: Msa_read_def read_eval)
  note f = Msa_analyse_fields [OF assms [unfolded Msa_ctor_def r]]
  show "mali_seq m = [''A-'']" "nseq m = 1" "ncol m = 2"
    by (simp_all add: f Msa_init_def upper_case_def toupper_def)
  show "alphabet m = ''A-''"
    by (simp add: f cells_def getCol_def Msa_init_def upper_case_def toupper_def add_symbol_def
        str_find_def npos_def)
  show "nb_type m = [1, 1]"
    by (simp add: f getCol_def Msa_init_def upper_case_def toupper_def add_symbol_def
        str_find_def npos_def)
qed

lemma single_sequence_t:
  assumes "Msa_ctor ''>s\<newline>A-\<newline>'' = Inr m"
  shows "map (TridStat_t m (map (TridStat_calcSeqWeight m) [0..<getNseq m])) [0..<getNcol m]
           = [NaN, NaN]"
proof -
  note f = single_sequence_model [OF assms]
  have sw: "map (TridStat_calcSeqWeight m) [0..<getNseq m] = [Fin 1]"
    by (simp add: TridStat_calcSeqWeight_def getNseq_def getNcol_def getNtype_def getSymbol_def f
        of_count_def Let_def upt_small)
  show ?thesis
    unfolding sw
    by (simp add: TridStat_t_def TridStat_tmp_proba_def getNseq_def getNcol_def getAlphabet_def
        getSymbol_def f MIN_of_def of_count_def fne_def feq_def fsub_def Let_def upt_small)
qed

lemma trident_single_sequence:
  assumes "Msa_ctor ''>s\<newline>A-\<newline>'' = Inr m"
    and "TridStat_calculateStatistic opts (Some score_mat) fit m w = Inr (st, msa', w')"
    and "TridStat_ntype msa' 1 = 0"
    and "fgt (factor_b opts) (Fin 0)" and "factor_a opts \<noteq> Fin 0"
  shows "ts_t st = [NaN, NaN] \<and> ts_r st ! 1 = Fin 1 \<and> out_file w' = Some [NaN, NaN]"
proof -
  note f = single_sequence_model [OF assms(1)]
  note t = single_sequence_t [OF assms(1)]
  from assms(2) have w: "writable w"
    by (auto simp: TridStat_calculateStatistic_def Let_def split: if_splits)
  from assms(2) w have msa': "msa' = fit (sm_alphabet score_mat) m"
    by (simp add: TridStat_calculateStatistic_def Let_def)
  from assms(2) w have st: "ts_t st = [NaN, NaN]"
    "ts_r st = map (TridStat_r score_mat msa') [0..<getNcol m]"
    using t by (auto simp: TridStat_calculateStatistic_def Let_def)
  have nc: "[0..<getNcol m] = [0, 1]" by (simp add: getNcol_def f upt_small)
  from st(2) assms(3) have r1: "ts_r st ! 1 = Fin 1" by (simp add: nc TridStat_r_no_type)
  have nan: "TridStat_score opts NaN rx gx = NaN" for rx gx
    using assms(5) by (cases "factor_a opts") (auto simp: TridStat_score_def fsub_def)
  from assms(2) w have "out_file w' = Some (map (\<lambda>col. TridStat_score opts
      (map (TridStat_t m (map (TridStat_calcSeqWeight m) [0..<getNseq m])) [0..<getNcol m] ! col)
      (map (TridStat_r score_mat msa') [0..<getNcol m] ! col)
      (map (\<lambda>x. fdiv (of_count (getGap msa' x)) (of_count (getNseq m))) [0..<getNcol m] ! col))
      [0..<getNcol m])"
    by (auto simp: TridStat_calculateStatistic_def Let_def msa')
  then have "out_file w' = Some [NaN, NaN]" unfolding t by (simp add: nc nan)
  with st(1) r1 show ?thesis by simp
qed


text \<open>
  Claim C3, as the code has it.  For every alignment, matrix, exponents and
  re-basing \<open>fit\<close>, when the statistic runs to its end, a column \<open>x\<close> whose \<open>ntype\<close>
  is 0 after the gap entry is erased has \<open>r[x]\<close> exactly 1.0; and for every
  \<open>factor_b > 0\<close> the score written for that column is 0 whenever the two other
  factors \<open>(1 - t[x])^a\<close> and \<open>(1 - g[x])^c\<close> are finite numbers, and NaN otherwise.
\<close>

theorem C3_trident_no_type_column:
  assumes "TridStat_calculateStatistic opts (Some score_mat) fit msa w = Inr (st, msa', w')"
    and "x < getNcol msa" and "TridStat_ntype msa' x = 0" and "fgt (factor_b opts) (Fin 0)"
  shows "ts_r st ! x = Fin 1
       \<and> (\<exists>out. out_file w' = Some out \<and> length out = getNcol msa
            \<and> out ! x =
                (if (\<exists>u. fpow (fsub (Fin 1) (ts_t st ! x)) (factor_a opts) = Fin u)
                    \<and> (\<exists>v. fpow (fsub (Fin 1) (ts_g st ! x)) (factor_c opts) = Fin v)
                 then Fin 0 else NaN))"
proof -
  from assms(1) have w: "writable w"
    by (auto simp: TridStat_calculateStatistic_def Let_def split: if_splits)
  from assms(1) w have msa': "msa' = fit (sm_alphabet score_mat) msa"
    by (simp add: TridStat_calculateStatistic_def Let_def)
  from assms(1) w have st: "ts_r st = map (TridStat_r score_mat msa') [0..<getNcol msa]"
    and out: "out_file w' = Some (map (\<lambda>col. TridStat_score opts (ts_t st ! col) (ts_r st ! col)
                                         (ts_g st ! col)) [0..<getNcol msa])"
    by (auto simp: TridStat_calculateStatistic_def Let_def)
  from st assms(2,3) have r: "ts_r st ! x = Fin 1" by (simp add: TridStat_r_no_type)
  from assms(2) have "map (\<lambda>col. TridStat_score opts (ts_t st ! col) (ts_r st ! col)
                                         (ts_g st ! col)) [0..<getNcol msa] ! x
      = TridStat_score opts (ts_t st ! x) (Fin 1) (ts_g st ! x)"
    by (simp add: r)
  with out r TridStat_score_r_one [OF assms(4), of "ts_t st ! x" "ts_g st ! x"]
  show ?thesis by simp
qed


theorem C3_witness:
  "\<exists>m st msa' w'.
     Msa_ctor ''>a\<newline>A-\<newline>>b\<newline>C-\<newline>'' = Inr m
     \<and> TridStat_calculateStatistic \<lparr>factor_a = Fin 1, factor_b = Fin 1, factor_c = Fin 1\<rparr>
           (Some \<lparr>sm_alphabet = ''AC'', normScore = (\<lambda>a b. Fin 1), getMax = Fin 1, getMin = Fin 0\<rparr>)
           (\<lambda>alph msa. msa) m \<lparr>console = [], writable = True, out_file = None\<rparr>
         = Inr (st, msa', w')
     \<and> 1 < getNcol m \<and> TridStat_ntype msa' 1 = 0
     \<and> ts_t st ! 1 = Fin 0 \<and> ts_g st ! 1 = Fin 1 \<and> ts_r st ! 1 = Fin 1
     \<and> (\<exists>out. out_file w' = Some out \<and> length out = getNcol m \<and> out ! 1 = Fin 0)"
proof -
  let ?opts = "\<lparr>factor_a = Fin 1, factor_b = Fin 1, factor_c = Fin 1\<rparr>"
  let ?sm = "\<lparr>sm_alphabet = ''AC'', normScore = (\<lambda>a b. Fin 1), getMax = Fin 1, getMin = Fin 0\<rparr>"
  let ?w = "\<lparr>console = [], writable = True, out_file = None\<rparr>"
  let ?t = "''>a\<newline>A-\<newline>>b\<newline>C-\<newline>''"
  obtain m where m: "Msa_ctor ?t = Inr m" using Msa_ctor_total by blast
  obtain st msa' w' where
    c: "TridStat_calculateStatistic ?opts (Some ?sm) (\<lambda>alph msa. msa) m ?w = Inr (st, msa', w')"
    and msa': "msa' = m"
    and tt: "ts_t st = map (TridStat_t m (map (TridStat_calcSeqWeight m) [0..<getNseq m])) [0..<getNcol m]"
    and gg: "ts_g st = map (\<lambda>x. fdiv (of_count (getGap m x)) (of_count (getNseq m))) [0..<getNcol m]"
    by (simp add: TridStat_calculateStatistic_def Let_def)
  have r: "Msa_read ?t = Msa_init [''a'', ''b''] [''A-'', ''C-'']"
    by (simp add: Msa_read_def read_eval)
  note f0 = Msa_analyse_fields [OF m [unfolded Msa_ctor_def r]]
  have f: "mali_seq m = [''A-'', ''C-'']" "nseq m = 2" "ncol m = 2" "alphabet m = ''AC-''"
    "nb_type m = [2, 1]" "aa_type_list m = [''AC'', ''-'']" "gap_counts m = [0, 2]"
    by (simp_all add: f0 cells_def getCol_def Msa_init_def upper_case_def toupper_def add_symbol_def
        str_find_def npos_def upt_small is_gap_def)
  have nc: "1 < getNcol m" by (simp add: getNcol_def f)
  have n: "TridStat_ntype msa' 1 = 0"
    by (simp add: msa' TridStat_ntype_def getNtype_def getTypeList_def str_find_def Let_def f)
  have sw: "map (TridStat_calcSeqWeight m) [0..<getNseq m] = [Fin (1 / 2), Fin (1 / 2)]"
    by (simp add: TridStat_calcSeqWeight_def getNseq_def getNcol_def getNtype_def getSymbol_def f
        of_count_def Let_def upt_small)
  have t1: "ts_t st ! 1 = Fin 0"
    unfolding tt sw
    by (simp add: TridStat_t_def TridStat_tmp_proba_def getNseq_def getNcol_def getAlphabet_def
        getSymbol_def f MIN_of_def of_count_def fne_def feq_def fsub_def Let_def upt_small)
  have g1: "ts_g st ! 1 = Fin 1"
    unfolding gg by (simp add: getNseq_def getNcol_def getGap_def f of_count_def upt_small)
  have b: "fgt (factor_b ?opts) (Fin 0)" by simp
  from C3_trident_no_type_column [OF c nc n b] t1 g1 m c nc n show ?thesis
    by (auto simp: fsub_def)
qed

text \<open>
  Claim C3 as stated (the score of such a column is 0 for every \<open>factor_b > 0\<close>)
  fails on the alignment of the single row \<open>A-\<close>, with all three exponents 1 and
  a re-basing that leaves the type lists of this alignment as they are:
  \<open>MIN(alphabet.size(), nseq)\<close> is 1, so \<open>lambda\<close> is \<open>1.0 / log(1)\<close>, infinite, and \<open>t[x]\<close>
  is \<open>0 * lambda\<close>, NaN.  Column 1 holds only the gap, \<open>r[1]\<close> is 1.0, and the score
  written for it is NaN.
\<close>

theorem C3_counterexample:
  "\<not> isl (Msa_ctor ''>s\<newline>A-\<newline>'')
   \<and> \<not> isl (TridStat_calculateStatistic \<lparr>factor_a = Fin 1, factor_b = Fin 1, factor_c = Fin 1\<rparr>
           (Some \<lparr>sm_alphabet = ''A'', normScore = (\<lambda>a b. Fin 1), getMax = Fin 1, getMin = Fin 0\<rparr>)
           (\<lambda>alph msa. msa) (projr (Msa_ctor ''>s\<newline>A-\<newline>''))
           \<lparr>console = [], writable = True, out_file = None\<rparr>)
   \<and> TridStat_ntype (fst (snd (projr
         (TridStat_calculateStatistic \<lparr>factor_a = Fin 1, factor_b = Fin 1, factor_c = Fin 1\<rparr>
           (Some \<lparr>sm_alphabet = ''A'', normScore = (\<lambda>a b. Fin 1), getMax = Fin 1, getMin = Fin 0\<rparr>)
           (\<lambda>alph msa. msa) (projr (Msa_ctor ''>s\<newline>A-\<newline>''))
           \<lparr>console = [], writable = True, out_file = None\<rparr>)))) 1 = 0
   \<and> ts_r (fst (projr
         (TridStat_calculateStatistic \<lparr>factor_a = Fin 1, factor_b = Fin 1, factor_c = Fin 1\<rparr>
           (Some \<lparr>sm_alphabet = ''A'', normScore = (\<lambda>a b. Fin 1), getMax = Fin 1, getMin = Fin 0\<rparr>)
           (\<lambda>alph msa. msa) (projr (Msa_ctor ''>s\<newline>A-\<newline>''))
           \<lparr>console = [], writable = True, out_file = None\<rparr>))) ! 1 = Fin 1
   \<and> out_file (snd (snd (projr
         (TridStat_calculateStatistic \<lparr>factor_a = Fin 1, factor_b = Fin 1, factor_c = Fin 1\<rparr>
           (Some \<lparr>sm_alphabet = ''A'', normScore = (\<lambda>a b. Fin 1), getMax = Fin 1, getMin = Fin 0\<rparr>)
           (\<lambda>alph msa. msa) (projr (Msa_ctor ''>s\<newline>A-\<newline>''))
           \<lparr>console = [], writable = True, out_file = None\<rparr>)))) = Some [NaN, NaN]"
proof -
  let ?opts = "\<lparr>factor_a = Fin 1, factor_b = Fin 1, factor_c = Fin 1\<rparr>"
  let ?sm = "\<lparr>sm_alphabet = ''A'', normScore = (\<lambda>a b. Fin 1), getMax = Fin 1, getMin = Fin 0\<rparr>"
  let ?w = "\<lparr>console = [], writable = True, out_file = None\<rparr>"
  obtain m where m: "Msa_ctor ''>s\<newline>A-\<newline>'' = Inr m" using Msa_ctor_total by blast
  obtain st msa' w' where
    c: "TridStat_calculateStatistic ?opts (Some ?sm) (\<lambda>alph msa. msa) m ?w = Inr (st, msa', w')"
    and msa': "msa' = m"
    by (simp add: TridStat_calculateStatistic_def Let_def)
  have r: "Msa_read ''>s\<newline>A-\<newline>'' = Msa_init [''s''] [''A-'']"
    by (simp add: Msa_read_def read_eval)
  note f = Msa_analyse_fields [OF m [unfolded Msa_ctor_def r]]
  have tl: "aa_type_list m = [''A'', ''-'']"
    by (simp add: f getCol_def Msa_init_def upper_case_def toupper_def add_symbol_def
        str_find_def npos_def upt_small)
  have n: "TridStat_ntype msa' 1 = 0"
    using single_sequence_model(5) [OF m] tl
    by (simp add: msa' TridStat_ntype_def getNtype_def getTypeList_def str_find_def Let_def)
  have b: "fgt (factor_b ?opts) (Fin 0)" "factor_a ?opts \<noteq> Fin 0" by simp_all
  from trident_single_sequence [OF m c n b] m c n show ?thesis by simp
qed

section \<open>The weights sum to one\<close>

lemma sum_inverse_fiber:
  assumes "finite J"
  shows "(\<Sum>j\<in>J. 1 / real (card {i \<in> J. f i = f j})) = real (card (f ` J))"
proof -
  have "(\<Sum>j\<in>J. 1 / real (card {i \<in> J. f i = f j}))
          = (\<Sum>y\<in>f ` J. \<Sum>j\<in>{i \<in> J. f i = y}. 1 / real (card {i \<in> J. f i = f j}))"
    by (rule sum.image_gen [OF assms])
  also have "\<dots> = (\<Sum>y\<in>f ` J. 1)"
  proof (rule sum.cong [OF refl])
    fix y assume y: "y \<in> f ` J"
    let ?F = "{i \<in> J. f i = y}"
    from y have ne: "?F \<noteq> {}" by auto
    from assms have fin: "finite ?F" by simp
    have "(\<Sum>j\<in>?F. 1 / real (card {i \<in> J. f i = f j})) = (\<Sum>j\<in>?F. 1 / real (card ?F))"
      by (rule sum.cong [OF refl]) simp
    also have "\<dots> = real (card ?F) * (1 / real (card ?F))" by simp
    also have "\<dots> = 1" using ne fin by (simp add: card_gt_0_iff)
    finally show "(\<Sum>j\<in>?F. 1 / real (card {i \<in> J. f i = f j})) = 1" .
  qed
  also have "\<dots> = real (card (f ` J))" by simp
  finally show ?thesis .
qed

lemma rows_sharing_conv: "rows_sharing m x i = card {j \<in> {..<nseq m}. getSymbol m j x = getSymbol m i x}"
  by (simp add: rows_sharing_def)

lemma column_weights_sum:
  assumes "0 < nseq m"
  shows "(\<Sum>j<nseq m. 1 / (real (distinct_symbols m x) * real (rows_sharing m x j))) = 1"
proof -
  have "(\<Sum>j<nseq m. 1 / (real (distinct_symbols m x) * real (rows_sharing m x j)))
          = (1 / real (distinct_symbols m x)) * (\<Sum>j<nseq m. 1 / real (rows_sharing m x j))"
    by (simp add: sum_distrib_left)
  also have "(\<Sum>j<nseq m. 1 / real (rows_sharing m x j)) = real (distinct_symbols m x)"
    unfolding rows_sharing_conv distinct_symbols_def
    by (rule sum_inverse_fiber) simp
  finally show ?thesis using distinct_symbols_pos [OF assms, of x] by simp
qed

lemma henikoff_sum:
  assumes "0 < nseq m" "0 < ncol m"
  shows "(\<Sum>j<nseq m. henikoff m j) = 1"
proof -
  have "(\<Sum>j<nseq m. henikoff m j)
          = (1 / real (ncol m)) *
            (\<Sum>j<nseq m. \<Sum>x<ncol m. 1 / (real (distinct_symbols m x) * real (rows_sharing m x j)))"
    by (simp add: henikoff_def sum_distrib_left)
  also have "(\<Sum>j<nseq m. \<Sum>x<ncol m. 1 / (real (distinct_symbols m x) * real (rows_sharing m x j)))
          = (\<Sum>x<ncol m. \<Sum>j<nseq m. 1 / (real (distinct_symbols m x) * real (rows_sharing m x j)))"
    by (rule sum.swap)
  also have "\<dots> = real (ncol m)" by (simp add: column_weights_sum [OF assms(1)])
  finally show ?thesis using assms(2) by simp
qed

lemma henikoff_lower_bound:
  assumes "i < nseq m" "0 < ncol m"
  shows "1 / (real (nseq m) * real (nseq m)) \<le> henikoff m i"
proof -
  from assms(1) have n: "0 < nseq m" by simp
  have t: "1 / (real (nseq m) * real (nseq m))
             \<le> 1 / (real (distinct_symbols m x) * real (rows_sharing m x i))" for x
  proof -
    have "rows_sharing m x i \<le> card {..<nseq m}"
      unfolding rows_sharing_def by (intro card_mono) auto
    moreover have "distinct_symbols m x \<le> card {..<nseq m}"
      unfolding distinct_symbols_def by (intro card_image_le) simp
    ultimately have "real (distinct_symbols m x) * real (rows_sharing m x i)
                       \<le> real (nseq m) * real (nseq m)"
      by (intro mult_mono) simp_all
    moreover have "0 < real (distinct_symbols m x) * real (rows_sharing m x i)"
      using rows_sharing_pos [OF assms(1), of x] distinct_symbols_pos [OF n, of x] by simp
    ultimately show ?thesis by (intro divide_left_mono) (use n in simp_all)
  qed
  have "real (ncol m) * (1 / (real (nseq m) * real (nseq m)))
          = (\<Sum>x<ncol m. 1 / (real (nseq m) * real (nseq m)))" by simp
  also have "\<dots> \<le> (\<Sum>x<ncol m. 1 / (real (distinct_symbols m x) * real (rows_sharing m x i)))"
    by (rule sum_mono) (rule t)
  finally have "1 / (real (nseq m) * real (nseq m))
      \<le> (1 / real (ncol m)) * (\<Sum>x<ncol m. 1 / (real (distinct_symbols m x) * real (rows_sharing m x i)))"
    using assms(2) by (simp add: field_simps)
  then show ?thesis by (simp add: henikoff_def)
qed

section \<open>The probabilities of the Jensen-Shannon statistic\<close>

lemma fold_update_index:
  assumes "length row = K"
  shows "k \<le> K \<Longrightarrow>
    fold (\<lambda>a row. if c a (row ! a) then row[a := G a (row ! a)] else row) [0..<k] row
      = map (\<lambda>a. if a < k \<and> c a (row ! a) then G a (row ! a) else row ! a) [0..<K]"
proof (induction k)
  case 0
  from map_nth [of row] assms show ?case by simp
next
  case (Suc k)
  let ?r = "map (\<lambda>a. if a < k \<and> c a (row ! a) then G a (row ! a) else row ! a) [0..<K]"
  define f where "f = (\<lambda>a row. if c a (row ! a) then row[a := G a (row ! a)] else row)"
  from Suc have k: "k < K" and ih: "fold f [0..<k] row = ?r"
    by (simp_all add: f_def)
  have rk: "?r ! k = row ! k" using k by simp
  have "(if c k (?r ! k) then ?r[k := G k (?r ! k)] else ?r)
          = map (\<lambda>a. if a < Suc k \<and> c a (row ! a) then G a (row ! a) else row ! a) [0..<K]"
    (is "?l = ?n")
  proof (rule nth_equalityI)
    show "length ?l = length ?n" by simp
    fix i assume "i < length ?l"
    then have i: "i < K" by (simp split: if_splits)
    show "?l ! i = ?n ! i"
      unfolding rk using i k by (cases "i = k") (simp_all add: less_Suc_eq)
  qed
  then have "f k ?r = ?n" by (simp only: f_def)
  moreover have "fold f [0..<Suc k] row = f k (fold f [0..<k] row)" by simp
  ultimately have "fold f [0..<Suc k] row = ?n" by (simp only: ih)
  then show ?case by (simp only: f_def)
qed

lemma Msa_ctor_nseq_le:
  assumes "Msa_ctor text = Inr m"
  shows "nseq m \<le> 500"
proof -
  obtain names seqs where r: "read_file text = (names, seqs)" by (cases "read_file text") auto
  from Msa_ctor_rows(2) [OF assms] r have "nseq m = length names"
    by (simp add: Msa_read_def Msa_init_def)
  with read_file_lengths(1) [OF r] show ?thesis by (simp add: nb_seq_limits_def)
qed

lemma weighted_proba_absent:
  "a \<notin> set (getCol m x) \<Longrightarrow> weighted_proba m x a = 0"
proof -
  assume "a \<notin> set (getCol m x)"
  then have "{j. j < nseq m \<and> getSymbol m j x = a} = {}" by (auto simp: set_getCol)
  then show ?thesis unfolding weighted_proba_def by (simp only: sum.empty)
qed

lemma weighted_proba_sum:
  assumes "distinct (alphabet m)" "set (getCol m x) \<subseteq> set (alphabet m)"
  shows "(\<Sum>a<length (alphabet m). weighted_proba m x (alphabet m ! a)) = (\<Sum>j<nseq m. henikoff m j)"
proof -
  let ?f = "\<lambda>j. getSymbol m j x"
  have "(\<Sum>j<nseq m. henikoff m j)
          = (\<Sum>c\<in>?f ` {..<nseq m}. \<Sum>j\<in>{j \<in> {..<nseq m}. ?f j = c}. henikoff m j)"
    by (rule sum.image_gen) simp
  also have "\<dots> = (\<Sum>c\<in>set (getCol m x). weighted_proba m x c)"
    by (simp add: set_getCol weighted_proba_def)
  also have "\<dots> = (\<Sum>c\<in>set (alphabet m). weighted_proba m x c)"
    using assms(2) by (intro sum.mono_neutral_left) (auto simp: weighted_proba_absent)
  also have "\<dots> = (\<Sum>a<length (alphabet m). weighted_proba m x (alphabet m ! a))"
    by (rule sum_nth_distinct [OF assms(1), symmetric])
  finally show ?thesis by simp
qed

lemma weighted_proba_above_pseudo:
  assumes "0 < ncol m" "0 < nseq m" "nseq m \<le> 500" "weighted_proba m x a \<noteq> 0"
  shows "1 / 10 ^ 6 < weighted_proba m x a"
proof -
  let ?J = "{j. j < nseq m \<and> getSymbol m j x = a}"
  from assms(4) have "?J \<noteq> {}" unfolding weighted_proba_def by (metis sum.empty)
  then obtain j where j: "j \<in> ?J" by blast
  then have jn: "j < nseq m" by simp
  have "real (nseq m) * real (nseq m) \<le> 500 * 500"
    using assms(3) by (intro mult_mono) simp_all
  moreover have "0 < real (nseq m) * real (nseq m)" using assms(2) by simp
  ultimately have "1 / (500 * 500) \<le> 1 / (real (nseq m) * real (nseq m))"
    by (intro divide_left_mono) simp_all
  with henikoff_lower_bound [OF jn assms(1)] have "1 / 10 ^ 6 < henikoff m j" by simp
  also have "henikoff m j \<le> sum (henikoff m) ?J"
    using j henikoff_pos [OF assms(1)]
    by (intro member_le_sum) (auto simp: less_imp_le)
  finally show ?thesis by (simp add: weighted_proba_def)
qed

lemma pseudo_count_sum:
  fixes P :: "nat \<Rightarrow> real"
  assumes one: "(\<Sum>a<K. P a) = 1"
  defines "nb \<equiv> card {a. a < K \<and> P a = 0}"
  shows "nb < K"
    and "(\<Sum>a<K. if P a = 0 then 1 / 10 ^ 6
                   else P a - real nb * (1 / 10 ^ 6) / real (K - nb)) = 1"
proof -
  let ?Z = "{..<K} \<inter> {a. P a = 0}" and ?N = "{..<K} \<inter> - {a. P a = 0}"
  have nbZ: "nb = card ?Z" unfolding nb_def by (rule arg_cong [where f = card]) auto
  have disj: "?Z \<inter> ?N = {}" and un: "?Z \<union> ?N = {..<K}" by auto
  have "card ?Z + card ?N = card {..<K}"
    using card_Un_disjoint [of ?Z ?N] disj un by simp
  then have cN: "card ?N = K - nb" and le: "nb \<le> K" by (simp_all add: nbZ)
  have "?N \<noteq> {}"
  proof
    assume "?N = {}"
    then have "\<forall>a\<in>{..<K}. P a = 0" by auto
    then have "(\<Sum>a<K. P a) = 0" by simp
    with one show False by simp
  qed
  then have "0 < card ?N" by (simp add: card_gt_0_iff)
  with cN show lt: "nb < K" by simp
  let ?pc = "real nb * (1 / 10 ^ 6) / real (K - nb)"
  have "(\<Sum>a<K. if P a = 0 then 1 / 10 ^ 6 else P a - ?pc)
          = (\<Sum>a\<in>?Z. 1 / 10 ^ 6) + (\<Sum>a\<in>?N. P a - ?pc)"
    by (rule sum.If_cases) simp
  also have "(\<Sum>a\<in>?Z. 1 / 10 ^ 6) = real nb * (1 / 10 ^ 6)" by (simp add: nbZ)
  also have "(\<Sum>a\<in>?N. P a - ?pc) = (\<Sum>a\<in>?N. P a) - real (K - nb) * ?pc"
    by (simp add: sum_subtractf cN)
  also have "(\<Sum>a\<in>?N. P a) = (\<Sum>a<K. P a)"
    by (rule sum.mono_neutral_left) auto
  also have "real (K - nb) * ?pc = real nb * (1 / 10 ^ 6)"
  proof -
    define d where "d = real (K - nb)"
    with lt have "d \<noteq> 0" by simp
    then have "d * (real nb * (1 / 10 ^ 6) / d) = real nb * (1 / 10 ^ 6)" by simp
    then show ?thesis by (simp only: d_def)
  qed
  finally show "(\<Sum>a<K. if P a = 0 then 1 / 10 ^ 6 else P a - ?pc) = 1" using one by simp
qed

section \<open>The error of one rounding\<close>

lemma round_even_error: "\<bar>of_int (round_even y) - y\<bar> \<le> 1 / 2"
  unfolding round_even_def Let_def by (auto; linarith)

lemma floor_log2_bounds:
  assumes "0 < x"
  shows "2 powr of_int \<lfloor>log 2 x\<rfloor> \<le> x" and "x < 2 powr (of_int \<lfloor>log 2 x\<rfloor> + 1)"
proof -
  have "of_int \<lfloor>log 2 x\<rfloor> \<le> log 2 x" by simp
  then have "2 powr of_int \<lfloor>log 2 x\<rfloor> \<le> 2 powr log 2 x" by (subst powr_le_cancel_iff) simp_all
  with assms show "2 powr of_int \<lfloor>log 2 x\<rfloor> \<le> x" by simp
  have "log 2 x < of_int \<lfloor>log 2 x\<rfloor> + 1" by linarith
  then have "2 powr log 2 x < 2 powr (of_int \<lfloor>log 2 x\<rfloor> + 1)" by (subst powr_less_cancel_iff) simp_all
  with assms show "x < 2 powr (of_int \<lfloor>log 2 x\<rfloor> + 1)" by simp
qed

text \<open>
  A result of magnitude at most \<open>2 ^ 1023\<close> is rounded to a finite number, at a
  distance of at most half the spacing \<open>2 ^ e\<close>, and the spacing is at most
  \<open>\<bar>x\<bar> / 2 ^ 52\<close> or \<open>2 ^ -1074\<close>.
\<close>

lemma round_double_scaled:
  assumes x: "x \<noteq> 0" and e: "e = max (\<lfloor>log 2 \<bar>x\<bar>\<rfloor> - 52) (- 1074)"
    and le: "\<bar>x\<bar> \<le> 2 powr 1023"
  shows "round_double x = Fin (of_int (round_even (x / 2 powr of_int e)) * 2 powr of_int e)"
    and "\<bar>of_int (round_even (x / 2 powr of_int e)) * 2 powr of_int e - x\<bar> \<le> 2 powr of_int e / 2"
    and "2 powr of_int e \<le> max (\<bar>x\<bar> / 2 ^ 52) (2 powr (- 1074))"
proof -
  let ?p = "(2::real) powr of_int e" and ?r = "round_even (x / 2 powr of_int e)"
  have p: "0 < ?p" by simp
  have "of_int ?r * ?p - x = (of_int ?r - x / ?p) * ?p" by (simp add: left_diff_distrib)
  then have "\<bar>of_int ?r * ?p - x\<bar> = \<bar>of_int ?r - x / ?p\<bar> * ?p"
    by (simp only: abs_mult) simp
  also have "\<dots> \<le> 1 / 2 * ?p" using round_even_error [of "x / ?p"] p by (intro mult_right_mono) simp_all
  finally show err: "\<bar>of_int ?r * ?p - x\<bar> \<le> ?p / 2" by simp
  from x have ax: "0 < \<bar>x\<bar>" by simp
  note b = floor_log2_bounds [OF ax]
  have p52: "(2::real) powr 52 = 2 ^ 52" by (simp flip: powr_numeral)
  have "(2::real) powr of_int (\<lfloor>log 2 \<bar>x\<bar>\<rfloor> - 52) = 2 powr of_int \<lfloor>log 2 \<bar>x\<bar>\<rfloor> / 2 ^ 52"
    by (simp add: powr_diff p52)
  moreover have "2 powr of_int \<lfloor>log 2 \<bar>x\<bar>\<rfloor> / 2 ^ 52 \<le> \<bar>x\<bar> / 2 ^ 52"
    using b(1) by (intro divide_right_mono) simp_all
  ultimately have h: "(2::real) powr of_int (\<lfloor>log 2 \<bar>x\<bar>\<rfloor> - 52) \<le> \<bar>x\<bar> / 2 ^ 52" by simp
  show pb: "?p \<le> max (\<bar>x\<bar> / 2 ^ 52) (2 powr (- 1074))"
  proof (cases "\<lfloor>log 2 \<bar>x\<bar>\<rfloor> - 52 \<le> - 1074")
    case True
    with e have "e = - 1074" by simp
    then show ?thesis by (simp add: le_max_iff_disj)
  next
    case False
    with e have "e = \<lfloor>log 2 \<bar>x\<bar>\<rfloor> - 52" by simp
    with h have "?p \<le> \<bar>x\<bar> / 2 ^ 52" by (simp only:)
    then show ?thesis by (simp only: le_max_iff_disj) blast
  qed
  have "\<bar>x\<bar> / 2 ^ 52 \<le> 2 powr 1023 / 2 ^ 52" using le by (intro divide_right_mono) simp_all
  also have "\<dots> = 2 powr 971"
  proof -
    have "(2::real) powr 1023 / 2 powr 52 = 2 powr 971" by (simp add: powr_diff [symmetric])
    moreover have "(2::real) powr 52 = 2 ^ 52" by (simp flip: powr_numeral)
    ultimately show ?thesis by simp
  qed
  finally have "\<bar>x\<bar> / 2 ^ 52 \<le> 2 powr 971" .
  moreover have "(2::real) powr (- 1074) \<le> 2 powr 971" by (subst powr_le_cancel_iff) simp_all
  ultimately have "max (\<bar>x\<bar> / 2 ^ 52) (2 powr (- 1074)) \<le> 2 powr 971" by (rule max.boundedI)
  with pb have "?p \<le> 2 powr 971" by (rule order_trans)
  with err have "\<bar>of_int ?r * ?p\<bar> \<le> \<bar>x\<bar> + 2 powr 971 / 2" by linarith
  also have "\<dots> \<le> 2 powr 1023 + 2 powr 971 / 2" using le by simp
  also have "\<dots> < 2 powr 1023 + 2 powr 1023"
  proof -
    have "(2::real) powr 971 \<le> 2 powr 1023" by (subst powr_le_cancel_iff) simp_all
    moreover have "0 < (2::real) powr 971" by simp
    ultimately show ?thesis by linarith
  qed
  also have "\<dots> = 2 ^ 1024"
  proof -
    have "(2::real) powr 1023 = 2 ^ 1023" by (simp flip: powr_numeral)
    then show ?thesis by simp
  qed
  finally have "\<not> 2 ^ 1024 \<le> \<bar>of_int ?r * ?p\<bar>" by simp
  then show "round_double x = Fin (of_int ?r * ?p)"
    using x unfolding round_double_def e [symmetric] Let_def by simp
qed


lemma round_double_zero: "round_double 0 = Fin 0"
  by (simp add: round_double_def)

lemma pow2_powr:
  "(2::real) powr 1023 = 2 ^ 1023" "(2::real) powr (- 1074) = 1 / 2 ^ 1074"
proof -
  show "(2::real) powr 1023 = 2 ^ 1023" by (simp flip: powr_numeral)
  have "(2::real) powr (- 1074) = 1 / 2 powr 1074" by (simp add: powr_minus_divide)
  also have "(2::real) powr 1074 = 2 ^ 1074" by (simp flip: powr_numeral)
  finally show "(2::real) powr (- 1074) = 1 / 2 ^ 1074" .
qed

text \<open>
  The two bounds used below: the error of a rounding is at most \<open>\<bar>x\<bar> / 2 ^ 53\<close>
  where \<open>x\<close> is a normal number, and at most \<open>2 ^ -1075\<close> more than that anywhere.
\<close>

lemma round_double_abs:
  assumes "\<bar>x\<bar> \<le> 2 ^ 64"
  shows "\<exists>y. round_double x = Fin y \<and> \<bar>y - x\<bar> \<le> \<bar>x\<bar> / 2 ^ 53 + 1 / 2 ^ 1075"
proof (cases "x = 0")
  case True
  then show ?thesis by (simp add: round_double_zero)
next
  case False
  define e where "e = max (\<lfloor>log 2 \<bar>x\<bar>\<rfloor> - 52) (- 1074)"
  have "(2::real) ^ 64 \<le> 2 ^ 1023" by (rule power_increasing) simp_all
  with assms have le: "\<bar>x\<bar> \<le> 2 powr 1023" unfolding pow2_powr by (rule order_trans)
  note s = round_double_scaled [OF False e_def le]
  let ?y = "real_of_int (round_even (x / 2 powr of_int e)) * 2 powr of_int e"
  have "max (\<bar>x\<bar> / 2 ^ 52) (2 powr (- 1074)) \<le> \<bar>x\<bar> / 2 ^ 52 + 1 / 2 ^ 1074"
    unfolding pow2_powr by (rule max.boundedI) simp_all
  with s(3) have "2 powr of_int e \<le> \<bar>x\<bar> / 2 ^ 52 + 1 / 2 ^ 1074" by (rule order_trans)
  then have "2 powr of_int e / 2 \<le> (\<bar>x\<bar> / 2 ^ 52 + 1 / 2 ^ 1074) / 2" by (rule divide_right_mono) simp
  also have "\<dots> = \<bar>x\<bar> / 2 ^ 53 + 1 / 2 ^ 1075" by (simp add: add_divide_distrib)
  finally have "\<bar>?y - x\<bar> \<le> \<bar>x\<bar> / 2 ^ 53 + 1 / 2 ^ 1075" using s(2) by (rule order_trans [rotated])
  with s(1) show ?thesis by blast
qed

lemma round_double_rel:
  assumes "1 / 2 ^ 64 \<le> x" and "x \<le> 2 ^ 64"
  shows "\<exists>y. round_double x = Fin y \<and> x * (1 - 1 / 2 ^ 53) \<le> y \<and> y \<le> x * (1 + 1 / 2 ^ 53)"
proof -
  have "0 < (1::real) / 2 ^ 64" by simp
  then have x: "0 < x" using assms(1) by linarith
  then have nz: "x \<noteq> 0" and ax: "\<bar>x\<bar> = x" by simp_all
  define e where "e = max (\<lfloor>log 2 \<bar>x\<bar>\<rfloor> - 52) (- 1074)"
  have "(2::real) ^ 64 \<le> 2 ^ 1023" by (rule power_increasing) simp_all
  with assms(2) have le: "\<bar>x\<bar> \<le> 2 powr 1023" unfolding pow2_powr ax by (rule order_trans)
  note s = round_double_scaled [OF nz e_def le]
  let ?y = "real_of_int (round_even (x / 2 powr of_int e)) * 2 powr of_int e"
  have "(1::real) / 2 ^ 1074 = 1 / 2 ^ 64 / 2 ^ 1010" by simp
  also have "\<dots> \<le> 1 / 2 ^ 64 / 2 ^ 52" by (rule divide_left_mono) simp_all
  also have "\<dots> \<le> x / 2 ^ 52" using assms(1) by (rule divide_right_mono) simp
  finally have "(1::real) / 2 ^ 1074 \<le> x / 2 ^ 52" .
  then have "max (\<bar>x\<bar> / 2 ^ 52) (2 powr (- 1074)) \<le> x / 2 ^ 52"
    unfolding pow2_powr ax by (intro max.boundedI) simp_all
  with s(3) have "2 powr of_int e \<le> x / 2 ^ 52" by (rule order_trans)
  then have "2 powr of_int e / 2 \<le> x / 2 ^ 52 / 2" by (rule divide_right_mono) simp
  also have "\<dots> = x / 2 ^ 53" by simp
  finally have "\<bar>?y - x\<bar> \<le> x / 2 ^ 53" using s(2) by (rule order_trans [rotated])
  moreover define y where "y = ?y"
  moreover define dx where "dx = x / 2 ^ 53"
  ultimately have d: "\<bar>y - x\<bar> \<le> dx" by simp
  have e: "x * (1 - 1 / 2 ^ 53) = x - dx" "x * (1 + 1 / 2 ^ 53) = x + dx"
    by (simp_all add: dx_def algebra_simps)
  from d have "x - dx \<le> y \<and> y \<le> x + dx" by linarith
  then have "x * (1 - 1 / 2 ^ 53) \<le> y \<and> y \<le> x * (1 + 1 / 2 ^ 53)" by (simp only: e)
  with s(1) show ?thesis unfolding y_def by blast
qed

text \<open>
  How a rounding is evaluated: for \<open>2 ^ 52 \<le> \<bar>x\<bar> * 2 ^ k < 2 ^ 53\<close> the spacing at \<open>x\<close>
  is \<open>2 ^ -k\<close>.
\<close>

lemma round_double_eval:
  assumes lo: "2 ^ 52 \<le> \<bar>x\<bar> * 2 ^ k" and hi: "\<bar>x\<bar> * 2 ^ k < 2 ^ 53" and k: "k \<le> 1074"
  shows "round_double x = Fin (of_int (round_even (x * 2 ^ k)) / 2 ^ k)"
proof -
  have x: "x \<noteq> 0" using lo by auto
  then have ax: "0 < \<bar>x\<bar>" by simp
  have p: "(2::real) powr (of_int (52 - int k)) = 2 ^ 52 / 2 ^ k"
  proof -
    have "(2::real) powr (of_int (52 - int k)) = 2 powr 52 / 2 powr (of_nat k)"
      by (simp add: powr_diff)
    moreover have "(2::real) powr 52 = 2 ^ 52" by (simp flip: powr_numeral)
    moreover have "(2::real) powr (of_nat k) = 2 ^ k" by (simp add: powr_realpow)
    ultimately show ?thesis by simp
  qed
  have p1: "(2::real) powr (of_int (52 - int k) + 1) = 2 ^ 53 / 2 ^ k"
  proof -
    have "(2::real) powr (of_int (52 - int k) + 1) = 2 powr (of_int (52 - int k)) * 2 powr 1"
      by (rule powr_add)
    with p show ?thesis by (simp only: powr_one_gt_zero_iff) simp
  qed
  have "2 ^ 52 / 2 ^ k \<le> \<bar>x\<bar>" using lo by (simp add: field_simps)
  then have "2 powr (of_int (52 - int k)) \<le> \<bar>x\<bar>" by (simp only: p)
  then have l1: "of_int (52 - int k) \<le> log 2 \<bar>x\<bar>"
    using ax le_log_iff [of 2 "\<bar>x\<bar>" "of_int (52 - int k)"] by simp
  have "\<bar>x\<bar> < 2 ^ 53 / 2 ^ k" using hi by (simp add: field_simps)
  then have "\<bar>x\<bar> < 2 powr (of_int (52 - int k) + 1)" by (simp only: p1)
  then have l2: "log 2 \<bar>x\<bar> < of_int (52 - int k) + 1"
    using ax log_less_iff [of 2 "\<bar>x\<bar>" "of_int (52 - int k) + 1"] by simp
  from l1 l2 have fl: "\<lfloor>log 2 \<bar>x\<bar>\<rfloor> = 52 - int k" by (simp add: floor_eq_iff)
  have e: "- int k = max (\<lfloor>log 2 \<bar>x\<bar>\<rfloor> - 52) (- 1074)" using k by (simp add: fl)
  have "\<bar>x\<bar> < 2 ^ 53 / 2 ^ k" by fact
  also have "\<dots> \<le> 2 ^ 53 / 1" by (rule divide_left_mono) simp_all
  also have "\<dots> \<le> 2 ^ 1023" by simp
  finally have le: "\<bar>x\<bar> \<le> 2 powr 1023" by (simp add: pow2_powr)
  have q: "(2::real) powr of_int (- int k) = 1 / 2 ^ k"
    by (simp add: powr_minus_divide powr_realpow)
  from round_double_scaled(1) [OF x e le] show ?thesis by (simp only: q) simp
qed


section \<open>The error along a loop\<close>

text \<open>
  \<open>eps\<close> is the unit roundoff of \<open>double\<close>.  \<open>fl_near n X s\<close>: the computed number \<open>s\<close>
  is the exact number \<open>X\<close> times a factor between \<open>(1 - eps) ^ n\<close> and
  \<open>(1 + eps) ^ n\<close>, as after \<open>n\<close> roundings of non-negative intermediate results.
\<close>

definition eps :: real where
  "eps = 1 / 2 ^ 53"

definition fl_near :: "nat \<Rightarrow> real \<Rightarrow> real \<Rightarrow> bool" where
  "fl_near n X s \<longleftrightarrow> X * (1 - eps) ^ n \<le> s \<and> s \<le> X * (1 + eps) ^ n"

lemma eps_bounds: "0 < eps" "eps < 1" "0 \<le> 1 - eps" "0 < 1 + eps"
  by (simp_all add: eps_def)

lemma pow_minus_le_one: "(1 - eps) ^ n \<le> 1"
  using eps_bounds by (intro power_le_one) simp_all

lemma pow_plus_ge_one: "1 \<le> (1 + eps) ^ n"
  using eps_bounds by (intro one_le_power) simp_all

lemma pow_minus_nonneg: "0 \<le> (1 - eps) ^ n"
  using eps_bounds by simp

lemma pow_plus_upper:
  "real n * eps \<le> 1 / 2 \<Longrightarrow> (1 + eps) ^ n \<le> 1 + 2 * real n * eps"
proof (induction n)
  case 0
  show ?case by simp
next
  case (Suc n)
  from Suc.prems eps_bounds(1) have n: "real n * eps \<le> 1 / 2"
    by (simp add: algebra_simps)
  from Suc.prems eps_bounds(1) have "2 * real n * eps * eps \<le> eps"
  proof -
    from Suc.prems eps_bounds(1) have "2 * real n * eps \<le> 1" by (simp add: algebra_simps)
    then have "2 * real n * eps * eps \<le> 1 * eps" using eps_bounds(1)
      by (intro mult_right_mono) simp_all
    then show ?thesis by simp
  qed
  moreover have "(1 + eps) ^ Suc n \<le> (1 + 2 * real n * eps) * (1 + eps)"
    using Suc.IH [OF n] eps_bounds by (simp add: mult_right_mono mult.commute)
  moreover have "(1 + 2 * real n * eps) * (1 + eps) = 1 + 2 * real n * eps + eps + 2 * real n * eps * eps"
    by (simp add: algebra_simps)
  ultimately show ?case by (simp add: algebra_simps)
qed

lemma pow_minus_lower: "1 - real n * eps \<le> (1 - eps) ^ n"
  using Bernoulli_inequality [of "- eps" n] eps_bounds by simp

lemma pow_plus_lower: "1 + real n * eps \<le> (1 + eps) ^ n"
  using Bernoulli_inequality [of eps n] eps_bounds by simp

lemma pow_small:
  assumes "n \<le> 2 ^ 32"
  shows "(1 + eps) ^ n \<le> 2" and "1 / 2 \<le> (1 - eps) ^ n"
proof -
  from assms have "real n \<le> 2 ^ 32" by (metis of_nat_le_iff of_nat_numeral of_nat_power)
  then have "real n * eps \<le> 2 ^ 32 * eps" using eps_bounds(1) by (intro mult_right_mono) simp_all
  also have "\<dots> \<le> 1 / 4" by (simp add: eps_def)
  finally have s: "real n * eps \<le> 1 / 4" .
  then have "real n * eps \<le> 1 / 2" by simp
  from pow_plus_upper [OF this] s show "(1 + eps) ^ n \<le> 2" by simp
  from pow_minus_lower [of n] s show "1 / 2 \<le> (1 - eps) ^ n" by simp
qed

lemma fl_near_zero: "fl_near n 0 s \<longleftrightarrow> s = 0"
  by (auto simp: fl_near_def)

lemma fl_near_refl: "0 \<le> X \<Longrightarrow> fl_near n X X"
  unfolding fl_near_def
  using mult_left_mono [OF pow_minus_le_one [of n], of X] mult_left_mono [OF pow_plus_ge_one [of n], of X]
  by simp

lemma fl_near_mono:
  assumes "0 \<le> X" "n \<le> n'" "fl_near n X s"
  shows "fl_near n' X s"
proof -
  have "(1 - eps) ^ n' \<le> (1 - eps) ^ n"
    using eps_bounds assms(2) by (intro power_decreasing) simp_all
  then have "X * (1 - eps) ^ n' \<le> X * (1 - eps) ^ n" using assms(1) by (rule mult_left_mono)
  moreover have "(1 + eps) ^ n \<le> (1 + eps) ^ n'"
    using eps_bounds assms(2) by (intro power_increasing) simp_all
  then have "X * (1 + eps) ^ n \<le> X * (1 + eps) ^ n'" using assms(1) by (rule mult_left_mono)
  ultimately show ?thesis using assms(3) unfolding fl_near_def by linarith
qed

lemma fl_near_add: "fl_near n X s \<Longrightarrow> fl_near n Y t \<Longrightarrow> fl_near n (X + Y) (s + t)"
  unfolding fl_near_def by (simp add: distrib_right)

lemma fl_near_div:
  assumes "0 < d" "fl_near n X s"
  shows "fl_near n (X / d) (s / d)"
proof -
  from assms have "X * (1 - eps) ^ n / d \<le> s / d" "s / d \<le> X * (1 + eps) ^ n / d"
    unfolding fl_near_def by (simp_all add: divide_right_mono)
  then show ?thesis unfolding fl_near_def by simp
qed

lemma fl_near_nonneg: "0 \<le> X \<Longrightarrow> fl_near n X s \<Longrightarrow> 0 \<le> s"
  unfolding fl_near_def using pow_minus_nonneg [of n] mult_nonneg_nonneg [of X "(1 - eps) ^ n"]
  by linarith

lemma fl_near_range:
  assumes "0 \<le> X" "fl_near n X s" "n \<le> 2 ^ 32"
  shows "X / 2 \<le> s" and "s \<le> 2 * X"
proof -
  note p = pow_small [OF assms(3)]
  from p(2) assms(1) have "X * (1 / 2) \<le> X * (1 - eps) ^ n" by (rule mult_left_mono)
  with assms(2) show "X / 2 \<le> s" unfolding fl_near_def by simp
  from p(1) assms(1) have "X * (1 + eps) ^ n \<le> X * 2" by (rule mult_left_mono)
  with assms(2) show "s \<le> 2 * X" unfolding fl_near_def by simp
qed

lemma fl_near_round:
  assumes "fl_near n X s" "1 / 2 ^ 64 \<le> s" "s \<le> 2 ^ 64"
  shows "\<exists>y. round_double s = Fin y \<and> fl_near (Suc n) X y"
proof -
  from round_double_rel [OF assms(2,3)] obtain y where
    y: "round_double s = Fin y" "s * (1 - eps) \<le> y" "y \<le> s * (1 + eps)"
    unfolding eps_def by blast
  from assms(1) have "X * (1 - eps) ^ n * (1 - eps) \<le> s * (1 - eps)"
    unfolding fl_near_def using eps_bounds by (intro mult_right_mono) simp_all
  moreover from assms(1) have "s * (1 + eps) \<le> X * (1 + eps) ^ n * (1 + eps)"
    unfolding fl_near_def using eps_bounds by (intro mult_right_mono) simp_all
  ultimately have "fl_near (Suc n) X y" using y(2,3) unfolding fl_near_def
    by (simp add: mult_ac)
  with y(1) show ?thesis by blast
qed

lemma fl_near_abs:
  assumes "0 \<le> X" "fl_near n X s"
  shows "\<bar>s - X\<bar> \<le> X * ((1 + eps) ^ n - 1)"
proof -
  have "1 - ((1 + eps) ^ n - 1) \<le> (1 - eps) ^ n"
    using pow_minus_lower [of n] pow_plus_lower [of n] by linarith
  then have "X * (1 - ((1 + eps) ^ n - 1)) \<le> X * (1 - eps) ^ n" using assms(1) by (rule mult_left_mono)
  with assms(2) have "X * (1 - ((1 + eps) ^ n - 1)) \<le> s" unfolding fl_near_def by linarith
  moreover from assms(2) have "s \<le> X * (1 + eps) ^ n" unfolding fl_near_def by simp
  ultimately show ?thesis by (simp add: algebra_simps abs_le_iff)
qed

text \<open>
  An addition and a division by a count, each with its rounding, and a loop of
  such steps: one more factor for each rounding.
\<close>

lemma dadd_near:
  assumes "fl_near n X s" "fl_near n Y v" "0 \<le> X" "1 / 2 ^ 60 \<le> Y" "X + Y \<le> 2 ^ 60"
    and "n \<le> 2 ^ 32"
  shows "\<exists>s'. dadd (Fin s) (Fin v) = Fin s' \<and> fl_near (Suc n) (X + Y) s'"
proof -
  have "(0::real) \<le> 1 / 2 ^ 60" by simp
  with assms(4) have Y: "0 \<le> Y" by linarith
  with assms(3) have XY: "0 \<le> X + Y" by simp
  note a = fl_near_add [OF assms(1,2)]
  note r = fl_near_range [OF XY a assms(6)]
  have "(1::real) / 2 ^ 64 = 1 / 2 ^ 60 / 2 / 8" by simp
  also have "\<dots> \<le> Y / 2 / 1" using assms(4) by (intro frac_le divide_right_mono) simp_all
  also have "\<dots> \<le> (X + Y) / 2" using assms(3) by simp
  finally have lo: "1 / 2 ^ 64 \<le> s + v" using r(1) by linarith
  have "2 * (X + Y) \<le> 2 * 2 ^ 60" using assms(5) by simp
  also have "\<dots> \<le> (2::real) ^ 64" by simp
  finally have hi: "s + v \<le> 2 ^ 64" using r(2) by linarith
  from fl_near_round [OF a lo hi] show ?thesis by (simp add: dadd_def)
qed

lemma ddiv_near:
  assumes "fl_near n X s" "0 < d" "1 / 2 ^ 60 \<le> X / real d" "X / real d \<le> 2 ^ 60"
    and "n \<le> 2 ^ 32"
  shows "\<exists>s'. ddiv (Fin s) (of_count d) = Fin s' \<and> fl_near (Suc n) (X / real d) s'"
proof -
  from assms(2) have d: "0 < real d" by simp
  have "(0::real) \<le> 1 / 2 ^ 60" by simp
  with assms(3) have X: "0 \<le> X / real d" by linarith
  note a = fl_near_div [OF d assms(1)]
  note r = fl_near_range [OF X a assms(5)]
  define Z where "Z = X / real d"
  have c: "(1::real) / 2 ^ 64 \<le> 1 / 2 ^ 60 / 2" "2 * (2::real) ^ 60 \<le> 2 ^ 64" by simp_all
  from assms(3,4) r have z: "1 / 2 ^ 60 \<le> Z" "Z \<le> 2 ^ 60" "Z / 2 \<le> s / real d" "s / real d \<le> 2 * Z"
    by (simp_all only: Z_def)
  note c(1)
  also have "1 / 2 ^ 60 / 2 \<le> Z / 2" using z(1) by (rule divide_right_mono) simp
  also note z(3)
  finally have lo: "1 / 2 ^ 64 \<le> s / real d" .
  note z(4)
  also have "2 * Z \<le> 2 * 2 ^ 60" using z(2) by (rule mult_left_mono) simp
  also note c(2)
  finally have hi: "s / real d \<le> 2 ^ 64" .
  from fl_near_round [OF a lo hi] d show ?thesis by (simp add: ddiv_def of_count_def)
qed

lemma fold_near_step:
  assumes step: "\<And>x s n X. x \<in> set xs \<Longrightarrow> 0 \<le> X \<Longrightarrow> X + g x \<le> 2 ^ 60 \<Longrightarrow> n0 \<le> n
        \<Longrightarrow> n \<le> 2 ^ 32 \<Longrightarrow> fl_near n X s
        \<Longrightarrow> \<exists>s'. f x (Fin s) = Fin s' \<and> fl_near (Suc n) (X + g x) s'"
    and g: "\<And>x. x \<in> set xs \<Longrightarrow> 0 \<le> g x"
  shows "0 \<le> X \<Longrightarrow> fl_near n X s \<Longrightarrow> n0 \<le> n \<Longrightarrow> X + sum_list (map g xs) \<le> 2 ^ 60
      \<Longrightarrow> n + length xs \<le> 2 ^ 32
      \<Longrightarrow> \<exists>s'. fold f xs (Fin s) = Fin s' \<and> fl_near (n + length xs) (X + sum_list (map g xs)) s'"
  using assms
proof (induction xs arbitrary: X s n)
  case Nil
  then show ?case by simp
next
  case (Cons x xs)
  have gx: "0 \<le> g x" by (rule Cons.prems(7)) simp
  have gs: "0 \<le> sum_list (map g xs)" by (rule sum_list_nonneg) (auto intro: Cons.prems(7))
  from Cons.prems(4) gs have b: "X + g x \<le> 2 ^ 60" by simp
  from Cons.prems(5) have n: "n \<le> 2 ^ 32" by simp
  from Cons.prems(6) [OF _ Cons.prems(1) b Cons.prems(3) n Cons.prems(2)]
  obtain s' where s': "f x (Fin s) = Fin s'" "fl_near (Suc n) (X + g x) s'" by auto
  have "\<exists>s''. fold f xs (Fin s') = Fin s''
          \<and> fl_near (Suc n + length xs) (X + g x + sum_list (map g xs)) s''"
  proof (rule Cons.IH)
    show "0 \<le> X + g x" using Cons.prems(1) gx by simp
    show "fl_near (Suc n) (X + g x) s'" by fact
    show "n0 \<le> Suc n" using Cons.prems(3) by simp
    show "X + g x + sum_list (map g xs) \<le> 2 ^ 60" using Cons.prems(4) by (simp add: add.assoc)
    show "Suc n + length xs \<le> 2 ^ 32" using Cons.prems(5) by simp
    show "\<exists>s'. f y (Fin s) = Fin s' \<and> fl_near (Suc n) (X + g y) s'"
      if "y \<in> set xs" "0 \<le> X" "X + g y \<le> 2 ^ 60" "n0 \<le> n" "n \<le> 2 ^ 32" "fl_near n X s"
      for y s n X
      using that by (intro Cons.prems(6)) simp_all
    show "0 \<le> g y" if "y \<in> set xs" for y using that by (intro Cons.prems(7)) simp
  qed
  with s'(1) show ?case by (simp add: add.assoc)
qed

section \<open>The rounded sequence weights\<close>

text \<open>
  \<open>calcSeqWeight\<close> rounds each quotient \<open>1 / (n * k)\<close>, each of the \<open>L\<close> additions and
  the final division: the weight it returns is the Henikoff weight up to
  \<open>L + 2\<close> roundings.  The constructor keeps at most 500 rows, so every quotient
  is at least \<open>1 / 250000\<close>.
\<close>

lemma weight_term_bounds:
  assumes "i < nseq m" "nseq m \<le> 500"
  shows "1 / 250000 \<le> 1 / (real (distinct_symbols m x) * real (rows_sharing m x i))"
    and "1 / (real (distinct_symbols m x) * real (rows_sharing m x i)) \<le> 1"
proof -
  from assms(1) have n: "0 < nseq m" by simp
  have r: "0 < rows_sharing m x i" using assms(1) by (rule rows_sharing_pos)
  have d: "0 < distinct_symbols m x" using n by (rule distinct_symbols_pos)
  have "rows_sharing m x i \<le> card {..<nseq m}"
    unfolding rows_sharing_def by (intro card_mono) auto
  then have r5: "real (rows_sharing m x i) \<le> 500" using assms(2) by simp
  have "distinct_symbols m x \<le> card {..<nseq m}"
    unfolding distinct_symbols_def by (intro card_image_le) simp
  then have d5: "real (distinct_symbols m x) \<le> 500" using assms(2) by simp
  have "real (distinct_symbols m x) * real (rows_sharing m x i) \<le> 500 * 500"
    using r5 d5 by (intro mult_mono) simp_all
  moreover have p: "0 < real (distinct_symbols m x) * real (rows_sharing m x i)" using r d by simp
  ultimately have "1 / (500 * 500) \<le> 1 / (real (distinct_symbols m x) * real (rows_sharing m x i))"
    by (intro divide_left_mono) simp_all
  then show "1 / 250000 \<le> 1 / (real (distinct_symbols m x) * real (rows_sharing m x i))" by simp
  from r d have "1 \<le> real (distinct_symbols m x)" "1 \<le> real (rows_sharing m x i)" by simp_all
  then have "1 * 1 \<le> real (distinct_symbols m x) * real (rows_sharing m x i)"
    by (intro mult_mono) simp_all
  then have "1 \<le> real (distinct_symbols m x) * real (rows_sharing m x i)" by simp
  then show "1 / (real (distinct_symbols m x) * real (rows_sharing m x i)) \<le> 1" by simp
qed

lemma henikoff_le_one:
  assumes "i < nseq m" "0 < ncol m"
  shows "henikoff m i \<le> 1"
proof -
  from assms(1) have n: "0 < nseq m" by simp
  have "henikoff m i \<le> (\<Sum>j<nseq m. henikoff m j)"
    using assms(1) henikoff_pos [OF assms(2)]
    by (intro member_le_sum) (auto simp: less_imp_le)
  with henikoff_sum [OF n assms(2)] show ?thesis by simp
qed

lemma weight_step:
  assumes m: "Msa_ctor text = Inr m" and i: "i < nseq m" and x: "x < ncol m"
    and p: "0 \<le> X" "X + 1 / (real (distinct_symbols m x) * real (rows_sharing m x i)) \<le> 2 ^ 60"
      "1 \<le> n" "n \<le> 2 ^ 32" "fl_near n X s"
  shows "\<exists>s'. (let k = getNtype m x;
              n = fold (\<lambda>seq n. if getSymbol m i x = getSymbol m seq x
                                  then n + 1 else n) [0..<nseq m] 0
          in dadd (Fin s) (ddiv (Fin 1) (of_count (n * k)))) = Fin s'
        \<and> fl_near (Suc n) (X + 1 / (real (distinct_symbols m x) * real (rows_sharing m x i))) s'"
proof -
  define g where "g = 1 / (real (distinct_symbols m x) * real (rows_sharing m x i))"
  define d where "d = rows_sharing m x i * distinct_symbols m x"
  note gb = weight_term_bounds [OF i Msa_ctor_nseq_le [OF m], of x, folded g_def]
  have "(1::real) / 2 ^ 60 \<le> 1 / 250000" by simp
  with gb(1) have g60: "1 / 2 ^ 60 \<le> g" by (rule order_trans [rotated])
  have "(1::real) \<le> 2 ^ 60" by simp
  with gb(2) have g2: "g \<le> 2 ^ 60" by (rule order_trans)
  have "(0::real) \<le> 1 / 250000" by simp
  with gb(1) have g0: "0 \<le> g" by (rule order_trans [rotated])
  from i have "0 < rows_sharing m x i" "0 < distinct_symbols m x"
    by (auto intro: rows_sharing_pos distinct_symbols_pos)
  then have dpos: "0 < d" by (simp add: d_def)
  have e: "1 / real d = g" by (simp add: g_def d_def mult.commute)
  have n1: "(0::nat) \<le> 2 ^ 32" by simp
  have "fl_near 0 1 1" by (rule fl_near_refl) simp
  from ddiv_near [OF this dpos _ _ n1] g60 g2
  obtain v where v: "ddiv (Fin 1) (of_count d) = Fin v" "fl_near (Suc 0) g v"
    unfolding e by blast
  from p(3) have "Suc 0 \<le> n" by simp
  from fl_near_mono [OF g0 this v(2)] have "fl_near n g v" .
  from dadd_near [OF p(5) this p(1) g60 p(2) [folded g_def] p(4)]
  obtain s' where s': "dadd (Fin s) (Fin v) = Fin s'" "fl_near (Suc n) (X + g) s'" by blast
  have "(let k = getNtype m x;
              n = fold (\<lambda>seq n. if getSymbol m i x = getSymbol m seq x
                                  then n + 1 else n) [0..<nseq m] 0
          in dadd (Fin s) (ddiv (Fin 1) (of_count (n * k)))) = dadd (Fin s) (ddiv (Fin 1) (of_count d))"
    by (simp add: count_rows_loop Msa_ctor_nb_type [OF m x] d_def)
  with v(1) s' show ?thesis unfolding g_def by simp
qed


lemma pow31: "n < 2 ^ 31 \<Longrightarrow> real n \<le> 2 ^ 31" "n < 2 ^ 31 \<Longrightarrow> n + 1 \<le> 2 ^ 32"
proof -
  assume "n < 2 ^ 31"
  then have "n \<le> 2 ^ 31" by simp
  then have "real n \<le> real (2 ^ 31)" by (simp only: of_nat_le_iff)
  then show "real n \<le> 2 ^ 31" by simp
next
  assume "n < 2 ^ 31"
  then have "n + 1 \<le> 2 ^ 31 + 0" by simp
  also have "\<dots> \<le> (2::nat) ^ 32" by simp
  finally show "n + 1 \<le> 2 ^ 32" .
qed

lemma weight_fold_near:
  assumes m: "Msa_ctor text = Inr m" and L: "ncol m < 2 ^ 31" and i: "i < nseq m"
  shows "\<exists>S. fold (\<lambda>x w.
          let k = getNtype m x;
              n = fold (\<lambda>seq n. if getSymbol m i x = getSymbol m seq x
                                  then n + 1 else n) [0..<nseq m] 0
          in dadd w (ddiv (Fin 1) (of_count (n * k)))) [0..<ncol m] (Fin 0) = Fin S
      \<and> fl_near (ncol m + 1)
           (sum_list (map (\<lambda>x. 1 / (real (distinct_symbols m x) * real (rows_sharing m x i)))
              [0..<ncol m])) S"
proof -
  define g where "g = (\<lambda>x. 1 / (real (distinct_symbols m x) * real (rows_sharing m x i)))"
  define f where "f = (\<lambda>x w.
          let k = getNtype m x;
              n = fold (\<lambda>seq n. if getSymbol m i x = getSymbol m seq x
                                  then n + 1 else n) [0..<nseq m] 0
          in dadd w (ddiv (Fin 1) (of_count (n * k))))"
  note gb = weight_term_bounds [OF i Msa_ctor_nseq_le [OF m]]
  have g0: "0 \<le> g x" for x unfolding g_def by simp
  have "sum_list (map g [0..<ncol m]) \<le> sum_list (map (\<lambda>x. 1) [0..<ncol m])"
    unfolding g_def by (rule sum_list_mono) (rule gb(2))
  then have "sum_list (map g [0..<ncol m]) \<le> real (ncol m)" by (simp add: sum_list_triv)
  also note pow31(1) [OF L]
  also have "(2::real) ^ 31 \<le> 2 ^ 60" by simp
  finally have s60: "0 + sum_list (map g [0..<ncol m]) \<le> 2 ^ 60" by simp
  have "\<exists>S. fold f [0..<ncol m] (Fin 0) = Fin S
          \<and> fl_near (1 + length [0..<ncol m]) (0 + sum_list (map g [0..<ncol m])) S"
  proof (rule fold_near_step [where ?n0.0 = 1])
    show "\<exists>s'. f x (Fin s) = Fin s' \<and> fl_near (Suc n) (X + g x) s'"
      if "x \<in> set [0..<ncol m]" "0 \<le> X" "X + g x \<le> 2 ^ 60" "1 \<le> n" "n \<le> 2 ^ 32" "fl_near n X s"
      for x s n X
    proof -
      from that(1) have x: "x < ncol m" by simp
      from weight_step [OF m i x that(2) that(3) [unfolded g_def] that(4,5,6)]
      show ?thesis unfolding f_def g_def .
    qed
    show "0 \<le> g x" for x by (rule g0)
    show "(0::real) \<le> 0" by simp
    show "fl_near 1 0 0" by (simp add: fl_near_zero)
    show "(1::nat) \<le> 1" by simp
    show "0 + sum_list (map g [0..<ncol m]) \<le> 2 ^ 60" by (rule s60)
    from pow31(2) [OF L] show "1 + length [0..<ncol m] \<le> 2 ^ 32" by simp
  qed
  then show ?thesis unfolding f_def g_def by (simp add: add.commute)
qed


lemma henikoff_range:
  assumes m: "Msa_ctor text = Inr m" and i: "i < nseq m" and L: "0 < ncol m"
  shows "1 / 250000 \<le> henikoff m i" "henikoff m i \<le> 1"
proof -
  have "real (nseq m) * real (nseq m) \<le> 500 * 500"
    using Msa_ctor_nseq_le [OF m] by (intro mult_mono) simp_all
  moreover have "0 < real (nseq m) * real (nseq m)" using i by simp
  ultimately have "1 / (500 * 500) \<le> 1 / (real (nseq m) * real (nseq m))"
    by (intro divide_left_mono) simp_all
  with henikoff_lower_bound [OF i L] have "1 / (500 * 500) \<le> henikoff m i" by (rule order_trans [rotated])
  then show "1 / 250000 \<le> henikoff m i" by simp
  show "henikoff m i \<le> 1" using i L by (rule henikoff_le_one)
qed

lemma weight_rounded_near:
  assumes m: "Msa_ctor text = Inr m" and L: "0 < ncol m" "ncol m < 2 ^ 31" and i: "i < nseq m"
  shows "\<exists>w. JensenStat_calcSeqWeight_rounded m i = Fin w \<and> fl_near (ncol m + 2) (henikoff m i) w"
proof -
  define G where "G = sum_list (map (\<lambda>x. 1 / (real (distinct_symbols m x) * real (rows_sharing m x i)))
              [0..<ncol m])"
  from weight_fold_near [OF m L(2) i] obtain S where
    S: "fold (\<lambda>x w.
          let k = getNtype m x;
              n = fold (\<lambda>seq n. if getSymbol m i x = getSymbol m seq x
                                  then n + 1 else n) [0..<nseq m] 0
          in dadd w (ddiv (Fin 1) (of_count (n * k)))) [0..<ncol m] (Fin 0) = Fin S"
    "fl_near (ncol m + 1) G S" unfolding G_def by blast
  have h: "henikoff m i = G / real (ncol m)"
    by (simp add: henikoff_def G_def interv_sum_list_conv_sum_set_nat atLeast0LessThan)
  note hr = henikoff_range [OF m i L(1), unfolded h]
  have "(1::real) / 2 ^ 60 \<le> 1 / 250000" by simp
  with hr(1) have lo: "1 / 2 ^ 60 \<le> G / real (ncol m)" by (rule order_trans [rotated])
  have "(1::real) \<le> 2 ^ 60" by simp
  with hr(2) have hi: "G / real (ncol m) \<le> 2 ^ 60" by (rule order_trans)
  from ddiv_near [OF S(2) L(1) lo hi pow31(2) [OF L(2)]]
  obtain w where w: "ddiv (Fin S) (of_count (ncol m)) = Fin w"
    "fl_near (Suc (ncol m + 1)) (G / real (ncol m)) w" by blast
  have "JensenStat_calcSeqWeight_rounded m i = ddiv (Fin S) (of_count (ncol m))"
    unfolding JensenStat_calcSeqWeight_rounded_def getNcol_def getNseq_def Let_def S(1) [unfolded Let_def] ..
  with w show ?thesis unfolding h by simp
qed

section \<open>The rounded probabilities of a column\<close>

text \<open>
  The sum of the weights of the rows that carry a symbol in column \<open>x\<close>: at most
  \<open>nseq\<close> more additions.
\<close>

lemma proba_rounded_near:
  assumes m: "Msa_ctor text = Inr m" and L: "0 < ncol m" "ncol m < 2 ^ 31"
    and sw: "\<And>j. j < nseq m \<Longrightarrow> \<exists>w. sw ! j = Fin w \<and> fl_near (ncol m + 2) (henikoff m j) w"
  shows "\<exists>q. fold (\<lambda>j p. if getSymbol m j x = a then dadd p (sw ! j) else p) [0..<nseq m] (Fin 0)
               = Fin q
           \<and> fl_near (ncol m + 2 + nseq m) (weighted_proba m x a) q"
proof -
  define g where "g = (\<lambda>j. if getSymbol m j x = a then henikoff m j else 0)"
  define f where "f = (\<lambda>j p. if getSymbol m j x = a then dadd p (sw ! j) else p)"
  note nle = Msa_ctor_nseq_le [OF m]
  have g0: "0 \<le> g j" if "j \<in> set [0..<nseq m]" for j
    using that henikoff_range(1) [OF m _ L(1), of j] by (simp add: g_def)
  have "sum_list (map g [0..<nseq m]) \<le> sum_list (map (henikoff m) [0..<nseq m])"
  proof (rule sum_list_mono)
    fix j assume "j \<in> set [0..<nseq m]"
    then show "g j \<le> henikoff m j" using henikoff_range(1) [OF m _ L(1), of j] by (simp add: g_def)
  qed
  also have "\<dots> = (\<Sum>j<nseq m. henikoff m j)"
    by (simp add: interv_sum_list_conv_sum_set_nat atLeast0LessThan)
  also have "\<dots> \<le> 1" using henikoff_sum [OF _ L(1)] by (cases "nseq m = 0") simp_all
  also have "(1::real) \<le> 2 ^ 60" by simp
  finally have s60: "0 + sum_list (map g [0..<nseq m]) \<le> 2 ^ 60" by simp
  have n32: "ncol m + 2 + length [0..<nseq m] \<le> 2 ^ 32"
  proof -
    have "ncol m + 2 + nseq m \<le> 2 ^ 31 + 2 + 500" using L(2) nle by simp
    also have "\<dots> \<le> (2::nat) ^ 32" by simp
    finally show ?thesis by simp
  qed
  have "\<exists>q. fold f [0..<nseq m] (Fin 0) = Fin q
          \<and> fl_near (ncol m + 2 + length [0..<nseq m]) (0 + sum_list (map g [0..<nseq m])) q"
  proof (rule fold_near_step [where ?n0.0 = "ncol m + 2"])
    show "\<exists>s'. f j (Fin s) = Fin s' \<and> fl_near (Suc n) (X + g j) s'"
      if "j \<in> set [0..<nseq m]" "0 \<le> X" "X + g j \<le> 2 ^ 60" "ncol m + 2 \<le> n" "n \<le> 2 ^ 32"
        "fl_near n X s" for j s n X
    proof (cases "getSymbol m j x = a")
      case True
      from that(1) have j: "j < nseq m" by simp
      from sw [OF j] obtain w where w: "sw ! j = Fin w" "fl_near (ncol m + 2) (henikoff m j) w"
        by blast
      note hr = henikoff_range [OF m j L(1)]
      have "(0::real) \<le> 1 / 250000" by simp
      with hr(1) have h0: "0 \<le> henikoff m j" by (rule order_trans [rotated])
      have "(1::real) / 2 ^ 60 \<le> 1 / 250000" by simp
      with hr(1) have h60: "1 / 2 ^ 60 \<le> henikoff m j" by (rule order_trans [rotated])
      from fl_near_mono [OF h0 that(4) w(2)] have "fl_near n (henikoff m j) w" .
      from dadd_near [OF that(6) this that(2) h60 _ that(5)] that(3) True
      show ?thesis by (simp add: f_def g_def w(1))
    next
      case False
      from fl_near_mono [OF that(2) _ that(6), of "Suc n"] have "fl_near (Suc n) X s" by simp
      with False show ?thesis by (simp add: f_def g_def)
    qed
    show "0 \<le> g j" if "j \<in> set [0..<nseq m]" for j using that by (rule g0)
    show "(0::real) \<le> 0" by simp
    show "fl_near (ncol m + 2) 0 0" by (simp add: fl_near_zero)
    show "ncol m + 2 \<le> ncol m + 2" by simp
    show "0 + sum_list (map g [0..<nseq m]) \<le> 2 ^ 60" by (rule s60)
    show "ncol m + 2 + length [0..<nseq m] \<le> 2 ^ 32" by (rule n32)
  qed
  moreover have "sum_list (map g [0..<nseq m]) = weighted_proba m x a"
    using sum.inter_filter [of "{..<nseq m}" "henikoff m" "\<lambda>j. getSymbol m j x = a"]
    by (simp add: g_def weighted_proba_def interv_sum_list_conv_sum_set_nat atLeast0LessThan)
  ultimately show ?thesis unfolding f_def by simp
qed

text \<open>
  The two loops over the alphabet (lines 116 to 133) entry by entry: \<open>Q a\<close> is the
  sum of the first loop for the symbol \<open>a\<close>.
\<close>

lemma JensenStat_sum_column_rounded_conv:
  assumes q: "\<And>a. a < length (alphabet m) \<Longrightarrow>
      fold (\<lambda>j p. if getSymbol m j x = getAlphabet m ! a then dadd p (sw ! j) else p)
        [0..<getNseq m] (Fin 0) = Q a"
  shows "k \<le> length (alphabet m) \<Longrightarrow>
    fold (\<lambda>a (row, nb_abs).
       let row' = row[a := fold (\<lambda>j p. if getSymbol m j x = getAlphabet m ! a
                                         then dadd p (sw ! j) else p)
                              [0..<getNseq m] (row ! a)]
       in if feq (row' ! a) (Fin 0) then (row'[a := pseudo_rounded], nb_abs + 1)
          else (row', nb_abs))
     [0..<k] (replicate (length (alphabet m)) (Fin 0), 0)
    = (map (\<lambda>a. if a < k then (if feq (Q a) (Fin 0) then pseudo_rounded else Q a) else Fin 0)
         [0..<length (alphabet m)],
       length (filter (\<lambda>a. feq (Q a) (Fin 0)) [0..<k]))"
proof (induction k)
  case 0
  show ?case by (simp add: map_replicate_const)
next
  case (Suc k)
  let ?K = "length (alphabet m)"
  let ?V = "\<lambda>a. if feq (Q a) (Fin 0) then pseudo_rounded else Q a"
  let ?r = "map (\<lambda>a. if a < k then ?V a else Fin 0) [0..<?K]"
  from Suc.prems have k: "k < ?K" by simp
  have rk: "?r ! k = Fin 0" using k by simp
  note inner = q [OF k]
  have upd: "?r[k := ?V k] = map (\<lambda>a. if a < Suc k then ?V a else Fin 0) [0..<?K]" (is "?l = ?n")
  proof (rule nth_equalityI)
    show "length ?l = length ?n" by simp
    fix i assume "i < length ?l"
    then have i: "i < ?K" by simp
    show "?l ! i = ?n ! i" using i k by (cases "i = k") (simp_all add: less_Suc_eq)
  qed
  have step: "(let row' = ?r[k := fold (\<lambda>j p. if getSymbol m j x = getAlphabet m ! k
                                         then dadd p (sw ! j) else p)
                              [0..<getNseq m] (?r ! k)]
       in if feq (row' ! k) (Fin 0) then (row'[k := pseudo_rounded], n + 1) else (row', n))
     = (map (\<lambda>a. if a < Suc k then ?V a else Fin 0) [0..<?K],
        if feq (Q k) (Fin 0) then n + 1 else n)" for n :: nat
  proof (cases "feq (Q k) (Fin 0)")
    case True
    with upd have "?r[k := pseudo_rounded] = map (\<lambda>a. if a < Suc k then ?V a else Fin 0) [0..<?K]"
      by simp
    with True k show ?thesis unfolding rk inner by (simp add: Let_def)
  next
    case False
    with upd have "?r[k := Q k] = map (\<lambda>a. if a < Suc k then ?V a else Fin 0) [0..<?K]"
      by simp
    with False k show ?thesis unfolding rk inner by (simp add: Let_def)
  qed
  define f where "f = (\<lambda>a (row, nb_abs :: nat).
       let row' = row[a := fold (\<lambda>j p. if getSymbol m j x = getAlphabet m ! a
                                         then dadd p (sw ! j) else p)
                              [0..<getNseq m] (row ! a)]
       in if feq (row' ! a) (Fin 0) then (row'[a := pseudo_rounded], nb_abs + 1)
          else (row', nb_abs))"
  from Suc.IH k have ih: "fold f [0..<k] (replicate ?K (Fin 0), 0)
      = (?r, length (filter (\<lambda>a. feq (Q a) (Fin 0)) [0..<k]))"
    by (simp add: f_def)
  have "fold f [0..<Suc k] (replicate ?K (Fin 0), 0) = f k (fold f [0..<k] (replicate ?K (Fin 0), 0))"
    by simp
  also have "\<dots> = f k (?r, length (filter (\<lambda>a. feq (Q a) (Fin 0)) [0..<k]))" by (simp only: ih)
  also have "\<dots> = (map (\<lambda>a. if a < Suc k then ?V a else Fin 0) [0..<?K],
        if feq (Q k) (Fin 0) then length (filter (\<lambda>a. feq (Q a) (Fin 0)) [0..<k]) + 1
        else length (filter (\<lambda>a. feq (Q a) (Fin 0)) [0..<k]))"
    using step [of "length (filter (\<lambda>a. feq (Q a) (Fin 0)) [0..<k])"] by (simp only: f_def prod.case)
  also have "(if feq (Q k) (Fin 0) then length (filter (\<lambda>a. feq (Q a) (Fin 0)) [0..<k]) + 1
        else length (filter (\<lambda>a. feq (Q a) (Fin 0)) [0..<k]))
      = length (filter (\<lambda>a. feq (Q a) (Fin 0)) [0..<Suc k])"
    by simp
  finally show ?case by (simp only: f_def)
qed

lemma JensenStat_column_rounded_conv:
  assumes q: "\<And>a. a < length (alphabet m) \<Longrightarrow>
      fold (\<lambda>j p. if getSymbol m j x = getAlphabet m ! a then dadd p (sw ! j) else p)
        [0..<getNseq m] (Fin 0) = Q a"
  defines "V \<equiv> \<lambda>a. if feq (Q a) (Fin 0) then pseudo_rounded else Q a"
  defines "pc \<equiv> ddiv (dmul (of_count (length (filter (\<lambda>a. feq (Q a) (Fin 0))
                                                [0..<length (alphabet m)]))) pseudo_rounded)
                       (of_count (length (alphabet m)
                                  - length (filter (\<lambda>a. feq (Q a) (Fin 0)) [0..<length (alphabet m)])))"
  shows "JensenStat_column_rounded m sw x
           = map (\<lambda>a. if fgt (V a) pseudo_rounded then dsub (V a) pc else V a)
               [0..<length (alphabet m)]"
proof -
  let ?K = "length (alphabet m)"
  let ?row = "map V [0..<?K]"
  have s: "JensenStat_sum_column_rounded m sw x
             = (?row, length (filter (\<lambda>a. feq (Q a) (Fin 0)) [0..<?K]))"
    unfolding JensenStat_sum_column_rounded_def getAlphabet_def [of m, symmetric]
    using JensenStat_sum_column_rounded_conv [of m x sw Q ?K, OF q]
    by (simp add: V_def getAlphabet_def cong: map_cong)
  have l: "length ?row = ?K" by simp
  have "fold (\<lambda>a row. if fgt (row ! a) pseudo_rounded then row[a := dsub (row ! a) pc] else row)
          [0..<?K] ?row
        = map (\<lambda>a. if a < ?K \<and> fgt (?row ! a) pseudo_rounded then dsub (?row ! a) pc else ?row ! a)
            [0..<?K]"
    by (rule fold_update_index [OF l, where c = "\<lambda>a v. fgt v pseudo_rounded" and G = "\<lambda>a v. dsub v pc"])
      simp
  also have "\<dots> = map (\<lambda>a. if fgt (V a) pseudo_rounded then dsub (V a) pc else V a) [0..<?K]"
    by (rule map_cong) simp_all
  finally have e: "fold (\<lambda>a row. if fgt (row ! a) pseudo_rounded then row[a := dsub (row ! a) pc] else row)
          [0..<?K] ?row
        = map (\<lambda>a. if fgt (V a) pseudo_rounded then dsub (V a) pc else V a) [0..<?K]" .
  show ?thesis
    unfolding JensenStat_column_rounded_def s prod.case Let_def getAlphabet_def pc_def [symmetric]
    by (rule e)
qed

text \<open>The pseudo-count, \<open>pseudo_counts\<close> and the subtraction.\<close>

lemma round_near:
  assumes "fl_near n X s" "X = 0 \<or> 1 / 2 ^ 60 \<le> X" "X \<le> 2 ^ 60" "n \<le> 2 ^ 32"
  shows "\<exists>y. round_double s = Fin y \<and> fl_near (Suc n) X y"
proof (cases "X = 0")
  case True
  with assms(1) show ?thesis by (simp add: fl_near_zero round_double_zero)
next
  case False
  with assms(2) have lo: "1 / 2 ^ 60 \<le> X" by simp
  have "(0::real) \<le> 1 / 2 ^ 60" by simp
  with lo have X: "0 \<le> X" by (rule order_trans [rotated])
  note r = fl_near_range [OF X assms(1,4)]
  have c: "(1::real) / 2 ^ 64 \<le> 1 / 2 ^ 60 / 2" "2 * (2::real) ^ 60 \<le> 2 ^ 64" by simp_all
  note c(1)
  also have "1 / 2 ^ 60 / 2 \<le> X / 2" using lo by (rule divide_right_mono) simp
  also note r(1)
  finally have l: "1 / 2 ^ 64 \<le> s" .
  note r(2)
  also have "2 * X \<le> 2 * 2 ^ 60" using assms(3) by (rule mult_left_mono) simp
  also note c(2)
  finally have h: "s \<le> 2 ^ 64" .
  from fl_near_round [OF assms(1) l h] show ?thesis .
qed

lemma weighted_proba_lower:
  assumes m: "Msa_ctor text = Inr m" and L: "0 < ncol m" and nz: "weighted_proba m x a \<noteq> 0"
  shows "1 / 250000 \<le> weighted_proba m x a"
proof -
  let ?J = "{j. j < nseq m \<and> getSymbol m j x = a}"
  from nz have "?J \<noteq> {}" unfolding weighted_proba_def by (metis sum.empty)
  then obtain j where j: "j \<in> ?J" by blast
  then have jn: "j < nseq m" by simp
  note henikoff_range(1) [OF m jn L]
  also have "henikoff m j \<le> sum (henikoff m) ?J"
    using j henikoff_pos [OF L]
    by (intro member_le_sum) (auto simp: less_imp_le)
  finally show ?thesis by (simp add: weighted_proba_def)
qed

lemma weighted_proba_le_one:
  assumes m: "Msa_ctor text = Inr m" and L: "0 < ncol m" and n: "0 < nseq m"
  shows "weighted_proba m x a \<le> 1"
proof -
  have "weighted_proba m x a \<le> (\<Sum>j<nseq m. henikoff m j)"
    unfolding weighted_proba_def
    using henikoff_pos [OF L] by (intro sum_mono2) (auto simp: less_imp_le)
  with henikoff_sum [OF n L] show ?thesis by simp
qed

lemma pseudo_rounded_near: "\<exists>P. pseudo_rounded = Fin P \<and> fl_near 1 (1 / 10 ^ 6) P"
proof -
  have "fl_near 0 (1 / 10 ^ 6) (1 / 10 ^ 6)" by (rule fl_near_refl) simp
  from round_near [OF this] show ?thesis by (simp add: pseudo_rounded_def pseudo_def)
qed

lemma dsub_abs:
  assumes "\<bar>a\<bar> \<le> 2 ^ 60" "\<bar>b\<bar> \<le> 2 ^ 60"
  shows "\<exists>e. dsub (Fin a) (Fin b) = Fin e \<and> \<bar>e - (a - b)\<bar> \<le> \<bar>a - b\<bar> * eps + 1 / 2 ^ 1075"
proof -
  have "\<bar>a - b\<bar> \<le> \<bar>a\<bar> + \<bar>b\<bar>" by simp
  also have "\<dots> \<le> 2 ^ 60 + 2 ^ 60" using assms by (rule add_mono)
  also have "\<dots> \<le> (2::real) ^ 64" by simp
  finally have "\<bar>a - b\<bar> \<le> 2 ^ 64" .
  from round_double_abs [OF this] show ?thesis by (simp add: dsub_def fsub_def eps_def)
qed

lemma pseudo_counts_near:
  assumes P: "fl_near 1 (1 / 10 ^ 6) P" and nb: "nb < K" and K: "K \<le> 256"
  shows "\<exists>v. ddiv (dmul (of_count nb) (Fin P)) (of_count (K - nb)) = Fin v
              \<and> fl_near 3 (real nb * (1 / 10 ^ 6) / real (K - nb)) v"
proof -
  define c1 where "c1 = real nb * (1 / 10 ^ 6)"
  define d where "d = real (K - nb)"
  from nb have d1: "1 \<le> d" by (simp add: d_def)
  from nb K have d256: "d \<le> 256" by (simp add: d_def)
  from nb K have nb256: "real nb \<le> 256" by simp
  have c10: "0 \<le> c1" by (simp add: c1_def)
  have c1h: "c1 \<le> 2 ^ 60"
  proof -
    have "c1 \<le> 256 * (1 / 10 ^ 6)" unfolding c1_def using nb256 by (rule mult_right_mono) simp
    also have "\<dots> \<le> (2::real) ^ 60" by simp
    finally show ?thesis .
  qed
  have c1l: "c1 = 0 \<or> 1 / 2 ^ 60 \<le> c1"
  proof (cases "nb = 0")
    case True
    then show ?thesis by (simp add: c1_def)
  next
    case False
    then have "1 \<le> real nb" by simp
    then have "1 * (1 / 10 ^ 6) \<le> c1" unfolding c1_def by (rule mult_right_mono) simp
    moreover have "(1::real) / 2 ^ 60 \<le> 1 * (1 / 10 ^ 6)" by simp
    ultimately show ?thesis by simp
  qed
  have "fl_near 1 c1 (real nb * P)"
    using P unfolding fl_near_def c1_def
    by (auto simp: mult.assoc intro!: mult_left_mono)
  from round_near [OF this c1l c1h] obtain r where
    r: "round_double (real nb * P) = Fin r" "fl_near 2 c1 r" by (auto simp: numeral_2_eq_2)
  have dpos: "0 < d" using d1 by simp
  note q = fl_near_div [OF dpos r(2)]
  have qh: "c1 / d \<le> 2 ^ 60"
  proof -
    have "c1 / d \<le> c1 / 1" using d1 c10 by (intro divide_left_mono) simp_all
    with c1h show ?thesis by simp
  qed
  have ql: "c1 / d = 0 \<or> 1 / 2 ^ 60 \<le> c1 / d"
  proof (cases "nb = 0")
    case True
    then show ?thesis by (simp add: c1_def)
  next
    case False
    then have "1 \<le> real nb" by simp
    then have "1 * (1 / 10 ^ 6) \<le> c1" unfolding c1_def by (rule mult_right_mono) simp
    then have "1 / 10 ^ 6 / 256 \<le> c1 / d" using d256 dpos by (intro frac_le) simp_all
    moreover have "(1::real) / 2 ^ 60 \<le> 1 / 10 ^ 6 / 256" by simp
    ultimately show ?thesis by simp
  qed
  from round_near [OF q ql qh] obtain v where
    v: "round_double (r / d) = Fin v" "fl_near 3 (c1 / d) v" by (auto simp: numeral_3_eq_3)
  have "ddiv (dmul (of_count nb) (Fin P)) (of_count (K - nb)) = Fin v"
    using dpos by (simp add: ddiv_def dmul_def of_count_def r(1) v(1) d_def [symmetric])
  with v(2) show ?thesis unfolding c1_def d_def by blast
qed

lemma entry_error:
  assumes q: "fl_near N wp q" and wp: "0 \<le> wp" and c: "fl_near 3 c pcv" "0 \<le> c" and N: "3 \<le> N"
    and e: "\<bar>e - (q - pcv)\<bar> \<le> \<bar>q - pcv\<bar> * eps + t"
  shows "\<bar>e - (wp - c)\<bar> \<le> (wp + c) * ((1 + eps) ^ Suc N - 1) + t"
proof -
  define B where "B = (1 + eps) ^ N"
  note c' = fl_near_mono [OF c(2) N c(1)]
  from fl_near_abs [OF wp q] have a1: "\<bar>q - wp\<bar> \<le> wp * (B - 1)" by (simp add: B_def)
  from fl_near_abs [OF c(2) c'] have a2: "\<bar>pcv - c\<bar> \<le> c * (B - 1)" by (simp add: B_def)
  from q have q1: "q \<le> wp * B" by (simp add: fl_near_def B_def)
  from c' have p1: "pcv \<le> c * B" by (simp add: fl_near_def B_def)
  note q0 = fl_near_nonneg [OF wp q]
  note p0 = fl_near_nonneg [OF c(2) c']
  from q0 p0 have "\<bar>q - pcv\<bar> \<le> q + pcv" by simp
  with q1 p1 have "\<bar>q - pcv\<bar> \<le> wp * B + c * B" by linarith
  then have "\<bar>q - pcv\<bar> * eps \<le> (wp * B + c * B) * eps"
    using eps_bounds(1) by (intro mult_right_mono) simp_all
  with e have e': "\<bar>e - (q - pcv)\<bar> \<le> (wp * B + c * B) * eps + t" by linarith
  have "\<bar>e - (wp - c)\<bar> \<le> \<bar>e - (q - pcv)\<bar> + \<bar>q - wp\<bar> + \<bar>pcv - c\<bar>" by linarith
  with e' a1 a2 have "\<bar>e - (wp - c)\<bar> \<le> (wp * B + c * B) * eps + t + wp * (B - 1) + c * (B - 1)"
    by linarith
  also have "(wp * B + c * B) * eps + t + wp * (B - 1) + c * (B - 1)
               = (wp + c) * ((1 + eps) * B - 1) + t"
    by (simp add: algebra_simps)
  finally show ?thesis by (simp add: B_def)
qed

lemma bound_final:
  assumes n: "1 \<le> n" "n \<le> 2 ^ 32" and y: "0 \<le> y" "y \<le> 3 / 2" and k: "k \<le> 256"
  shows "y * ((1 + eps) ^ n - 1) + real k / 2 ^ 1075 \<le> real n / 2 ^ 51"
proof -
  define ne where "ne = real n * eps"
  from n(2) have "real n \<le> 2 ^ 32" by (metis of_nat_le_iff of_nat_numeral of_nat_power)
  then have "ne \<le> 2 ^ 32 * eps" unfolding ne_def using eps_bounds(1)
    by (intro mult_right_mono) simp_all
  also have "\<dots> \<le> 1 / 2" by (simp add: eps_def)
  finally have h: "real n * eps \<le> 1 / 2" by (simp add: ne_def)
  from pow_plus_upper [OF h] have "(1 + eps) ^ n - 1 \<le> 2 * ne" by (simp add: ne_def)
  moreover have "0 \<le> (1 + eps) ^ n - 1" using pow_plus_ge_one [of n] by simp
  ultimately have "y * ((1 + eps) ^ n - 1) \<le> 3 / 2 * (2 * ne)"
    using y by (intro mult_mono) simp_all
  then have a: "y * ((1 + eps) ^ n - 1) \<le> 3 * ne" by simp
  from k have "real k \<le> 256" by simp
  then have "real k / 2 ^ 1075 \<le> 256 / 2 ^ 1075" by (rule divide_right_mono) simp
  also have "\<dots> \<le> 1 * eps" unfolding eps_def by simp
  also have "\<dots> \<le> ne" unfolding ne_def using n(1) eps_bounds(1)
    by (intro mult_right_mono) simp_all
  finally have b: "real k / 2 ^ 1075 \<le> ne" .
  have "real n / 2 ^ 51 = 4 * ne" by (simp add: ne_def eps_def)
  with a b show ?thesis by linarith
qed

text \<open>
  The adjustment as the specification states it, on exact numbers: the entry
  of a symbol whose weighted probability \<open>p\<close> is 0 is \<open>10 ^ -6\<close>, and
  \<open>nb_abs * 10 ^ -6 / (|alphabet| - nb_abs)\<close> is subtracted from every \<open>p\<close> greater
  than \<open>10 ^ -6\<close>, where \<open>nb_abs\<close> is the number of symbols of the alphabet whose
  weighted probability is 0.
\<close>

definition nb_abs_of :: "Msa \<Rightarrow> nat \<Rightarrow> nat" where
  "nb_abs_of m x = card {a. a < length (alphabet m) \<and> weighted_proba m x (alphabet m ! a) = 0}"

definition adjusted_proba :: "Msa \<Rightarrow> nat \<Rightarrow> nat \<Rightarrow> real" where
  "adjusted_proba m x a =
     (let p = weighted_proba m x (alphabet m ! a)
      in if p = 0 then 1 / 10 ^ 6
         else if 1 / 10 ^ 6 < p
              then p - real (nb_abs_of m x) * (1 / 10 ^ 6)
                       / real (length (alphabet m) - nb_abs_of m x)
              else p)"

text \<open>
  The row of a column.  A symbol absent from the column has the sum 0 exactly
  and gets the pseudo-count; a symbol present has a sum of at least
  \<open>1 / 500000\<close>, above the pseudo-count, and \<open>pseudo_counts\<close> is subtracted from it.
  The errors of the entries add up to the error of their sum.
\<close>

lemma column_sums_rounded:
  assumes m: "Msa_ctor text = Inr m" and x: "x < ncol m" and L: "ncol m < 2 ^ 31"
  shows "\<exists>q. fold (\<lambda>j p. if getSymbol m j x = getAlphabet m ! a
                          then dadd p (map (JensenStat_calcSeqWeight_rounded m) [0..<getNseq m] ! j)
                          else p) [0..<getNseq m] (Fin 0) = Fin q
            \<and> fl_near (ncol m + 2 + nseq m) (weighted_proba m x (alphabet m ! a)) q"
proof -
  from x have Lpos: "0 < ncol m" by simp
  have sw: "\<exists>w. map (JensenStat_calcSeqWeight_rounded m) [0..<getNseq m] ! j = Fin w
              \<and> fl_near (ncol m + 2) (henikoff m j) w" if "j < nseq m" for j
    using weight_rounded_near [OF m Lpos L that] that by (simp add: getNseq_def)
  from proba_rounded_near [OF m Lpos L sw, of x "alphabet m ! a"]
  show ?thesis by (simp add: getNseq_def getAlphabet_def)
qed

lemma adjusted_proba_sum:
  assumes m: "Msa_ctor text = Inr m" and x: "x < ncol m" and n: "0 < nseq m"
  shows "nb_abs_of m x < length (alphabet m)"
    and "(\<Sum>a<length (alphabet m). adjusted_proba m x a) = 1"
proof -
  let ?K = "length (alphabet m)"
  let ?P = "\<lambda>a. weighted_proba m x (alphabet m ! a)"
  from x have Lpos: "0 < ncol m" by simp
  note d = Msa_ctor_alphabet [OF m]
  from d getCol_subset_cells [OF x] have sub: "set (getCol m x) \<subseteq> set (alphabet m)" by simp
  have one: "(\<Sum>a<?K. ?P a) = 1"
    using weighted_proba_sum [OF d(1) sub] henikoff_sum [OF n Lpos] by simp
  note pc = pseudo_count_sum [OF one]
  from pc(1) show "nb_abs_of m x < ?K" by (simp add: nb_abs_of_def)
  have "adjusted_proba m x a = (if ?P a = 0 then 1 / 10 ^ 6
                   else ?P a - real (card {a. a < ?K \<and> ?P a = 0}) * (1 / 10 ^ 6)
                               / real (?K - card {a. a < ?K \<and> ?P a = 0}))" for a
    using weighted_proba_above_pseudo [OF Lpos n Msa_ctor_nseq_le [OF m], of x "alphabet m ! a"]
    by (simp add: adjusted_proba_def nb_abs_of_def Let_def)
  with pc(2) show "(\<Sum>a<?K. adjusted_proba m x a) = 1" by (simp only:)
qed

lemma jensen_column_rounded:
  assumes m: "Msa_ctor text = Inr m" and n: "0 < nseq m" and x: "x < ncol m"
    and L: "ncol m < 2 ^ 31"
  shows "\<exists>row. JensenStat_column_rounded m
                 (map (JensenStat_calcSeqWeight_rounded m) [0..<getNseq m]) x = map Fin row
      \<and> length row = length (alphabet m)
      \<and> (\<forall>a<length (alphabet m).
            \<bar>row ! a - adjusted_proba m x a\<bar> \<le> real (ncol m + nseq m + 3) / 2 ^ 51)
      \<and> (\<forall>a<length (alphabet m).
            weighted_proba m x (alphabet m ! a) = 0 \<longrightarrow> Fin (row ! a) = pseudo_rounded)
      \<and> \<bar>sum_list row - 1\<bar> \<le> real (ncol m + nseq m + 3) / 2 ^ 51"
proof -
  let ?K = "length (alphabet m)"
  let ?sw = "map (JensenStat_calcSeqWeight_rounded m) [0..<getNseq m]"
  define N where "N = ncol m + 2 + nseq m"
  define wp where "wp a = weighted_proba m x (alphabet m ! a)" for a
  define Qf where "Qf a = fold (\<lambda>j p. if getSymbol m j x = getAlphabet m ! a
                                      then dadd p (?sw ! j) else p) [0..<getNseq m] (Fin 0)" for a
  define qv where "qv a = (case Qf a of Fin q \<Rightarrow> q | _ \<Rightarrow> 0)" for a
  from x have Lpos: "0 < ncol m" by simp
  note nle = Msa_ctor_nseq_le [OF m]
  have Q: "Qf a = Fin (qv a)" "fl_near N (wp a) (qv a)" for a
    using column_sums_rounded [OF m x L, of a] by (auto simp: Qf_def qv_def wp_def N_def)
  have wp0: "0 \<le> wp a" for a unfolding wp_def using Lpos by (rule weighted_proba_nonneg)
  have wpl: "1 / 250000 \<le> wp a" if "wp a \<noteq> 0" for a
    using weighted_proba_lower [OF m Lpos that [unfolded wp_def]] by (simp add: wp_def)
  have wp1: "wp a \<le> 1" for a unfolding wp_def using m Lpos n by (rule weighted_proba_le_one)
  have N32: "Suc N \<le> 2 ^ 32"
  proof -
    have "Suc N \<le> 2 ^ 31 + 3 + 500" using L nle by (simp add: N_def)
    also have "\<dots> \<le> (2::nat) ^ 32" by simp
    finally show ?thesis .
  qed
  then have N32': "N \<le> 2 ^ 32" by simp
  have N3: "3 \<le> N" using Lpos n by (simp add: N_def)
  have qlow: "1 / 500000 \<le> qv a" if "wp a \<noteq> 0" for a
  proof -
    from wpl [OF that] have "1 / 250000 / 2 \<le> wp a / 2" by (rule divide_right_mono) simp
    with fl_near_range(1) [OF wp0 Q(2) N32', of a] show ?thesis by simp
  qed
  have qup: "qv a \<le> 2" for a
  proof -
    have "2 * wp a \<le> 2 * 1" using wp1 [of a] by (rule mult_left_mono) simp
    with fl_near_range(2) [OF wp0 Q(2) N32', of a] show ?thesis by simp
  qed
  have q0: "0 \<le> qv a" for a using wp0 Q(2) by (rule fl_near_nonneg)
  have qz: "qv a = 0" if "wp a = 0" for a using Q(2) [of a] that by (simp add: fl_near_zero)
  have fz: "feq (Qf a) (Fin 0) \<longleftrightarrow> wp a = 0" for a
  proof (cases "wp a = 0")
    case True
    with qz show ?thesis by (simp add: Q(1) feq_def)
  next
    case False
    from qlow [OF this] have "qv a \<noteq> 0" by auto
    with False show ?thesis by (simp add: Q(1) feq_def)
  qed
  from pseudo_rounded_near obtain P where P: "pseudo_rounded = Fin P" "fl_near 1 (1 / 10 ^ 6) P"
    by blast
  have Pu: "P < 1 / 500000"
  proof -
    from P(2) have "P \<le> 1 / 10 ^ 6 * (1 + eps)" by (simp add: fl_near_def)
    also have "\<dots> < 1 / 10 ^ 6 * 2" using eps_bounds(2) by (intro mult_strict_left_mono) simp_all
    finally show ?thesis by simp
  qed
  have P0: "0 \<le> P" using P(2) by (rule fl_near_nonneg [rotated]) simp
  define nb where "nb = nb_abs_of m x"
  have nbf: "length (filter (\<lambda>a. feq (Qf a) (Fin 0)) [0..<?K]) = nb"
  proof -
    have "{i. i < ?K \<and> wp ([0..<?K] ! i) = 0} = {a. a < ?K \<and> wp a = 0}" by auto
    then have "length (filter (\<lambda>a. wp a = 0) [0..<?K]) = card {a. a < ?K \<and> wp a = 0}"
      by (simp add: length_filter_conv_card)
    then show ?thesis by (simp only: fz nb_def nb_abs_of_def wp_def)
  qed
  note ad = adjusted_proba_sum [OF m x n, folded nb_def]
  have K256: "?K \<le> 256" using Msa_ctor_alphabet(1) [OF m] by (rule distinct_string_length)
  define c where "c = real nb * (1 / 10 ^ 6) / real (?K - nb)"
  from pseudo_counts_near [OF P(2) ad(1) K256] obtain pcv where
    pcv: "ddiv (dmul (of_count nb) (Fin P)) (of_count (?K - nb)) = Fin pcv" "fl_near 3 c pcv"
    unfolding c_def by blast
  have c0: "0 \<le> c" by (simp add: c_def)
  have cu: "c \<le> 255 / 10 ^ 6"
  proof -
    from ad(1) K256 have "real nb \<le> 255" by simp
    then have "real nb * (1 / 10 ^ 6) \<le> 255 * (1 / 10 ^ 6)" by (rule mult_right_mono) simp
    moreover from ad(1) have "1 \<le> real (?K - nb)" by simp
    ultimately have "real nb * (1 / 10 ^ 6) / real (?K - nb) \<le> 255 * (1 / 10 ^ 6) / 1"
      by (intro frac_le) simp_all
    then show ?thesis by (simp add: c_def)
  qed
  have pu: "pcv \<le> 1"
  proof -
    have "(3::nat) \<le> 2 ^ 32" by simp
    from fl_near_range(2) [OF c0 pcv(2) this] cu show ?thesis by simp
  qed
  have p0: "0 \<le> pcv" using c0 pcv(2) by (rule fl_near_nonneg)
  define D where "D = (1 + eps) ^ Suc N - 1"
  have D0: "0 \<le> D" using pow_plus_ge_one [of "Suc N"] by (simp add: D_def)
  define V where "V a = (if feq (Qf a) (Fin 0) then pseudo_rounded else Qf a)" for a
  define pc where "pc = ddiv (dmul (of_count (length (filter (\<lambda>a. feq (Qf a) (Fin 0)) [0..<?K])))
                               pseudo_rounded)
                       (of_count (?K - length (filter (\<lambda>a. feq (Qf a) (Fin 0)) [0..<?K])))"
  define ent where "ent a = (if fgt (V a) pseudo_rounded then dsub (V a) pc else V a)" for a
  have pcF: "pc = Fin pcv" unfolding pc_def nbf P(1) by (rule pcv(1))
  have col: "JensenStat_column_rounded m ?sw x = map ent [0..<?K]"
    using JensenStat_column_rounded_conv [of m x ?sw Qf]
    unfolding Qf_def [symmetric] ent_def V_def pc_def by simp
  have E: "\<exists>r. ent a = Fin r \<and> (wp a = 0 \<longrightarrow> Fin r = pseudo_rounded)
              \<and> \<bar>r - adjusted_proba m x a\<bar> \<le> (wp a + (c + 1 / 10 ^ 6)) * D + 1 / 2 ^ 1075"
    for a
  proof (cases "wp a = 0")
    case True
    then have Va: "V a = Fin P" by (simp add: V_def fz P(1))
    then have e: "ent a = Fin P" by (simp add: ent_def P(1))
    have adj: "adjusted_proba m x a = 1 / 10 ^ 6"
      using True by (simp add: adjusted_proba_def wp_def)
    have "(0::real) \<le> 1 / 10 ^ 6" by simp
    from fl_near_abs [OF this P(2)] have "\<bar>P - 1 / 10 ^ 6\<bar> \<le> 1 / 10 ^ 6 * ((1 + eps) ^ 1 - 1)" .
    also have "\<dots> \<le> 1 / 10 ^ 6 * D"
    proof -
      have "(1 + eps) ^ 1 \<le> (1 + eps) ^ Suc N" using eps_bounds by (intro power_increasing) simp_all
      then show ?thesis unfolding D_def by (intro mult_left_mono) simp_all
    qed
    also have "\<dots> \<le> (wp a + (c + 1 / 10 ^ 6)) * D + 1 / 2 ^ 1075"
    proof -
      have "1 / 10 ^ 6 * D \<le> (wp a + (c + 1 / 10 ^ 6)) * D"
        using wp0 [of a] c0 D0 by (intro mult_right_mono) simp_all
      moreover have "(0::real) \<le> 1 / 2 ^ 1075" by simp
      ultimately show ?thesis by linarith
    qed
    finally show ?thesis using e True by (simp add: adj P(1))
  next
    case False
    with fz [of a] have Va: "V a = Fin (qv a)" by (simp add: V_def Q(1))
    from qlow [OF False] Pu have "P < qv a" by linarith
    then have e: "ent a = dsub (Fin (qv a)) (Fin pcv)" by (simp add: ent_def Va P(1) pcF)
    have "\<bar>qv a\<bar> \<le> 2 ^ 60" "\<bar>pcv\<bar> \<le> 2 ^ 60"
    proof -
      have "(2::real) \<le> 2 ^ 60" "(1::real) \<le> 2 ^ 60" by simp_all
      with qup [of a] q0 [of a] pu p0 show "\<bar>qv a\<bar> \<le> 2 ^ 60" "\<bar>pcv\<bar> \<le> 2 ^ 60" by linarith+
    qed
    from dsub_abs [OF this] obtain r where
      r: "dsub (Fin (qv a)) (Fin pcv) = Fin r"
      "\<bar>r - (qv a - pcv)\<bar> \<le> \<bar>qv a - pcv\<bar> * eps + 1 / 2 ^ 1075" by blast
    from entry_error [OF Q(2) wp0 pcv(2) c0 N3 r(2)]
    have b: "\<bar>r - (wp a - c)\<bar> \<le> (wp a + c) * D + 1 / 2 ^ 1075" by (simp add: D_def)
    have "(wp a + c) * D \<le> (wp a + (c + 1 / 10 ^ 6)) * D"
      using D0 by (intro mult_right_mono) simp_all
    with b have b': "\<bar>r - (wp a - c)\<bar> \<le> (wp a + (c + 1 / 10 ^ 6)) * D + 1 / 2 ^ 1075" by linarith
    have "(1::real) / 10 ^ 6 < 1 / 250000" by simp
    with wpl [OF False] have "1 / 10 ^ 6 < wp a" by linarith
    with False have adj: "adjusted_proba m x a = wp a - c"
      by (simp add: adjusted_proba_def wp_def [symmetric] nb_def [symmetric] c_def Let_def)
    from e r(1) b' False show ?thesis by (simp add: adj)
  qed
  define rv where "rv a = (case ent a of Fin r \<Rightarrow> r | _ \<Rightarrow> 0)" for a
  have R: "ent a = Fin (rv a)" "wp a = 0 \<Longrightarrow> Fin (rv a) = pseudo_rounded"
    "\<bar>rv a - adjusted_proba m x a\<bar> \<le> (wp a + (c + 1 / 10 ^ 6)) * D + 1 / 2 ^ 1075" for a
  proof -
    from E [of a] obtain r where r: "ent a = Fin r" "wp a = 0 \<longrightarrow> Fin r = pseudo_rounded"
      "\<bar>r - adjusted_proba m x a\<bar> \<le> (wp a + (c + 1 / 10 ^ 6)) * D + 1 / 2 ^ 1075" by blast
    from r(1) have e: "rv a = r" by (simp add: rv_def)
    from r(1) show "ent a = Fin (rv a)" by (simp only: e)
    from r(2) show "wp a = 0 \<Longrightarrow> Fin (rv a) = pseudo_rounded" by (simp only: e)
    from r(3) show "\<bar>rv a - adjusted_proba m x a\<bar> \<le> (wp a + (c + 1 / 10 ^ 6)) * D + 1 / 2 ^ 1075"
      by (simp only: e)
  qed
  define row where "row = map rv [0..<?K]"
  define B where "B = real (ncol m + nseq m + 3) / 2 ^ 51"
  have SN: "real (Suc N) / 2 ^ 51 = B" by (simp add: N_def B_def add_ac)
  have cK: "c + 1 / 10 ^ 6 \<le> 256 / 10 ^ 6" using cu by simp
  have n1: "1 \<le> Suc N" by simp
  have r1: "map Fin row = map ent [0..<?K]" by (simp add: row_def R(1))
  have r2: "length row = ?K" by (simp add: row_def)
  have r3: "\<bar>row ! a - adjusted_proba m x a\<bar> \<le> B" if "a < ?K" for a
  proof -
    have y0: "0 \<le> wp a + (c + 1 / 10 ^ 6)" using wp0 [of a] c0 by simp
    have "wp a + (c + 1 / 10 ^ 6) \<le> 1 + 256 / 10 ^ 6" using wp1 [of a] cK by linarith
    also have "\<dots> \<le> (3::real) / 2" by simp
    finally have y1: "wp a + (c + 1 / 10 ^ 6) \<le> 3 / 2" .
    have "(1::nat) \<le> 256" by simp
    from bound_final [OF n1 N32 y0 y1 this, folded D_def, unfolded SN]
    have "(wp a + (c + 1 / 10 ^ 6)) * D + 1 / 2 ^ 1075 \<le> B" by (simp only: of_nat_1)
    with R(3) [of a] have "\<bar>rv a - adjusted_proba m x a\<bar> \<le> B" by linarith
    with that show ?thesis by (simp add: row_def)
  qed
  have r4: "Fin (row ! a) = pseudo_rounded" if "a < ?K" "weighted_proba m x (alphabet m ! a) = 0" for a
    using that R(2) [of a] by (simp add: row_def wp_def)
  have r5: "\<bar>sum_list row - 1\<bar> \<le> B"
  proof -
    have s: "sum_list row = (\<Sum>a<?K. rv a)"
      by (simp add: row_def interv_sum_list_conv_sum_set_nat atLeast0LessThan)
    have wps: "(\<Sum>a<?K. wp a) = 1"
    proof -
      note d = Msa_ctor_alphabet [OF m]
      from d getCol_subset_cells [OF x] have sub: "set (getCol m x) \<subseteq> set (alphabet m)" by simp
      from weighted_proba_sum [OF d(1) sub] henikoff_sum [OF n Lpos] show ?thesis
        by (simp add: wp_def)
    qed
    have "sum_list row - 1 = (\<Sum>a<?K. rv a - adjusted_proba m x a)"
      by (simp add: s ad(2) sum_subtractf)
    then have "\<bar>sum_list row - 1\<bar> \<le> (\<Sum>a<?K. \<bar>rv a - adjusted_proba m x a\<bar>)"
      by (simp only: sum_abs)
    also have "\<dots> \<le> (\<Sum>a<?K. (wp a + (c + 1 / 10 ^ 6)) * D + 1 / 2 ^ 1075)"
      by (rule sum_mono) (rule R(3))
    also have "\<dots> = (1 + real ?K * (c + 1 / 10 ^ 6)) * D + real ?K / 2 ^ 1075"
      by (simp add: sum.distrib sum_distrib_right [symmetric] wps)
    finally have a: "\<bar>sum_list row - 1\<bar> \<le> (1 + real ?K * (c + 1 / 10 ^ 6)) * D + real ?K / 2 ^ 1075" .
    have y0: "0 \<le> 1 + real ?K * (c + 1 / 10 ^ 6)" using c0 by simp
    have "real ?K * (c + 1 / 10 ^ 6) \<le> 256 * (256 / 10 ^ 6)"
      using K256 cK c0 by (intro mult_mono) simp_all
    also have "\<dots> \<le> (1::real) / 2" by simp
    finally have y1: "1 + real ?K * (c + 1 / 10 ^ 6) \<le> 3 / 2" by simp
    from bound_final [OF n1 N32 y0 y1 K256, folded D_def, unfolded SN]
    have "(1 + real ?K * (c + 1 / 10 ^ 6)) * D + real ?K / 2 ^ 1075 \<le> B" .
    with a show ?thesis by linarith
  qed
  from r1 r2 r3 r4 r5 col show ?thesis unfolding B_def by (intro exI [of _ row]) simp
qed

section \<open>The sum of the probabilities of a column\<close>

text \<open>The alignment of the three rows \<open>AA\<close>, \<open>AA\<close> and \<open>AC\<close>, operation by operation.\<close>

lemma example_model:
  assumes m: "Msa_ctor ''>a\<newline>AA\<newline>>b\<newline>AA\<newline>>c\<newline>AC\<newline>'' = Inr m"
  shows "mali_seq m = [''AA'', ''AA'', ''AC'']" "nseq m = 3" "ncol m = 2" "alphabet m = ''AC''"
    "nb_type m = [1, 2]"
proof -
  let ?t = "''>a\<newline>AA\<newline>>b\<newline>AA\<newline>>c\<newline>AC\<newline>''"
  have r: "Msa_read ?t = Msa_init [''a'', ''b'', ''c''] [''AA'', ''AA'', ''AC'']"
    by (simp add: Msa_read_def read_eval)
  note f = Msa_ctor_rows [OF m, unfolded r]
  show "mali_seq m = [''AA'', ''AA'', ''AC'']" "nseq m = 3" "ncol m = 2"
    by (simp_all add: f Msa_init_def upper_case_def toupper_def)
  show "alphabet m = ''AC''"
    using Msa_analyse_fields(5) [OF m [unfolded Msa_ctor_def r]]
    by (simp add: cells_def getCol_def Msa_init_def upper_case_def toupper_def add_symbol_def
        str_find_def npos_def)
  show "nb_type m = [1, 2]"
    using Msa_analyse_fields(8) [OF m [unfolded Msa_ctor_def r]]
    by (simp add: getCol_def Msa_init_def upper_case_def toupper_def add_symbol_def
        str_find_def npos_def upt_small)
qed

lemma example_op1: "ddiv (Fin 1) (of_count (Suc (Suc (Suc 0)))) = Fin (6004799503160661 / 18014398509481984)"
  apply (simp add: ddiv_def dadd_def dsub_def dmul_def fsub_def of_count_def)
  by (subst round_double_eval [where k = 54]) (simp_all add: round_even_def)

lemma example_op2: "dadd (Fin 0) (Fin (6004799503160661 / 18014398509481984)) = Fin (6004799503160661 / 18014398509481984)"
  apply (simp add: ddiv_def dadd_def dsub_def dmul_def fsub_def of_count_def)
  by (subst round_double_eval [where k = 54]) (simp_all add: round_even_def)

lemma example_op3: "ddiv (Fin 1) (of_count 4) = Fin (1 / 4)"
  apply (simp add: ddiv_def dadd_def dsub_def dmul_def fsub_def of_count_def)
  by (subst round_double_eval [where k = 54]) (simp_all add: round_even_def)

lemma example_op4: "dadd (Fin (6004799503160661 / 18014398509481984)) (Fin (1 / 4)) = Fin (2627099782632789 / 4503599627370496)"
  apply (simp add: ddiv_def dadd_def dsub_def dmul_def fsub_def of_count_def)
  by (subst round_double_eval [where k = 53]) (simp_all add: round_even_def)

lemma example_op5: "ddiv (Fin (2627099782632789 / 4503599627370496)) (of_count 2) = Fin (2627099782632789 / 9007199254740992)"
  apply (simp add: ddiv_def dadd_def dsub_def dmul_def fsub_def of_count_def)
  by (subst round_double_eval [where k = 54]) (simp_all add: round_even_def)

lemma example_op6: "ddiv (Fin 1) (of_count 2) = Fin (1 / 2)"
  apply (simp add: ddiv_def dadd_def dsub_def dmul_def fsub_def of_count_def)
  by (subst round_double_eval [where k = 53]) (simp_all add: round_even_def)

lemma example_op7: "dadd (Fin (6004799503160661 / 18014398509481984)) (Fin (1 / 2)) = Fin (3752999689475413 / 4503599627370496)"
  apply (simp add: ddiv_def dadd_def dsub_def dmul_def fsub_def of_count_def)
  by (subst round_double_eval [where k = 53]) (simp_all add: round_even_def)

lemma example_op8: "ddiv (Fin (3752999689475413 / 4503599627370496)) (of_count 2) = Fin (3752999689475413 / 9007199254740992)"
  apply (simp add: ddiv_def dadd_def dsub_def dmul_def fsub_def of_count_def)
  by (subst round_double_eval [where k = 54]) (simp_all add: round_even_def)

lemmas example_ops = example_op1 example_op2 example_op3 example_op4 example_op5 example_op6 example_op7 example_op8

lemma example_weights:
  assumes m: "Msa_ctor ''>a\<newline>AA\<newline>>b\<newline>AA\<newline>>c\<newline>AC\<newline>'' = Inr m"
  shows "map (JensenStat_calcSeqWeight_rounded m) [0..<getNseq m]
           = [Fin (2627099782632789 / 9007199254740992), Fin (2627099782632789 / 9007199254740992), Fin (3752999689475413 / 9007199254740992)]"
  by (simp add: example_model [OF m] JensenStat_calcSeqWeight_rounded_def getNcol_def getNseq_def
      getNtype_def getSymbol_def upt_small example_ops)


lemma example_op9: "dadd (Fin 0) (Fin (2627099782632789 / 9007199254740992)) = Fin (2627099782632789 / 9007199254740992)"
  apply (simp add: ddiv_def dadd_def dsub_def dmul_def fsub_def of_count_def pseudo_rounded_def pseudo_def)
  by (subst round_double_eval [where k = 54]) (simp_all add: round_even_def)

lemma example_op10: "dadd (Fin (2627099782632789 / 9007199254740992)) (Fin (2627099782632789 / 9007199254740992)) = Fin (2627099782632789 / 4503599627370496)"
  apply (simp add: ddiv_def dadd_def dsub_def dmul_def fsub_def of_count_def pseudo_rounded_def pseudo_def)
  by (subst round_double_eval [where k = 53]) (simp_all add: round_even_def)

lemma example_op11: "dadd (Fin 0) (Fin (3752999689475413 / 9007199254740992)) = Fin (3752999689475413 / 9007199254740992)"
  apply (simp add: ddiv_def dadd_def dsub_def dmul_def fsub_def of_count_def pseudo_rounded_def pseudo_def)
  by (subst round_double_eval [where k = 54]) (simp_all add: round_even_def)

lemma example_op12: "pseudo_rounded = Fin (4722366482869645 / 4722366482869645213696)"
  apply (simp add: ddiv_def dadd_def dsub_def dmul_def fsub_def of_count_def pseudo_rounded_def pseudo_def)
  by (subst round_double_eval [where k = 72]) (simp_all add: round_even_def)

lemma example_op13: "dmul (of_count 0) (Fin x) = Fin 0" "ddiv (Fin 0) (of_count (Suc (Suc 0))) = Fin 0"
  by (simp_all add: dmul_def ddiv_def of_count_def round_double_zero)

lemma example_op14: "dsub (Fin (2627099782632789 / 4503599627370496)) (Fin 0) = Fin (2627099782632789 / 4503599627370496)"
  apply (simp add: ddiv_def dadd_def dsub_def dmul_def fsub_def of_count_def pseudo_rounded_def pseudo_def)
  by (subst round_double_eval [where k = 53]) (simp_all add: round_even_def)

lemma example_op15: "dsub (Fin (3752999689475413 / 9007199254740992)) (Fin 0) = Fin (3752999689475413 / 9007199254740992)"
  apply (simp add: ddiv_def dadd_def dsub_def dmul_def fsub_def of_count_def pseudo_rounded_def pseudo_def)
  by (subst round_double_eval [where k = 54]) (simp_all add: round_even_def)

lemmas example_ops2 = example_op9 example_op10 example_op11 example_op12 example_op13 example_op14 example_op15

lemma example_column:
  assumes m: "Msa_ctor ''>a\<newline>AA\<newline>>b\<newline>AA\<newline>>c\<newline>AC\<newline>'' = Inr m"
  shows "JensenStat_column_rounded m [Fin (2627099782632789 / 9007199254740992), Fin (2627099782632789 / 9007199254740992), Fin (3752999689475413 / 9007199254740992)] 1 = [Fin (2627099782632789 / 4503599627370496), Fin (3752999689475413 / 9007199254740992)]"
  by (simp add: example_model [OF m] JensenStat_column_rounded_def JensenStat_sum_column_rounded_def
      getNcol_def getNseq_def getAlphabet_def
      getNtype_def getSymbol_def upt_small example_ops example_ops2 Let_def feq_def)

text \<open>
  An input without a header line leaves no name (the reading loop above), so
  \<open>nseq\<close> is 0 and the alphabet is empty: the rows of \<open>proba\<close> have no entry, where
  \<open>calloc(0, ...)\<close> returns a pointer (otherwise the program stops there).
\<close>

lemma jensen_rows_without_sequence:
  "\<not> isl (Msa_ctor ''AC\<newline>'')
   \<and> nseq (projr (Msa_ctor ''AC\<newline>'')) = 0
   \<and> ncol (projr (Msa_ctor ''AC\<newline>'')) = 2
   \<and> alphabet (projr (Msa_ctor ''AC\<newline>'')) = []
   \<and> proba (fst (JensenStat_calculateStatistic_rounded (projr (Msa_ctor ''AC\<newline>''))
                   \<lparr>console = [], writable = True, out_file = None\<rparr>)) = [[], []]"
proof -
  let ?t = "''AC\<newline>''"
  obtain m where m: "Msa_ctor ?t = Inr m" using Msa_ctor_total by blast
  have r: "Msa_read ?t = Msa_init [] [''AC'']"
    by (simp add: Msa_read_def read_eval)
  note f = Msa_ctor_rows [OF m, unfolded r]
  have h: "nseq m = 0" "ncol m = 2" by (simp_all add: f Msa_init_def)
  have a: "alphabet m = []"
    using Msa_analyse_fields(5) [OF m [unfolded Msa_ctor_def r]]
    by (simp add: cells_def getCol_def Msa_init_def upper_case_def)
  have "proba (fst (JensenStat_calculateStatistic_rounded m
                   \<lparr>console = [], writable = True, out_file = None\<rparr>)) = [[], []]"
    by (simp add: JensenStat_calculateStatistic_rounded_def JensenStat_column_rounded_def
        JensenStat_sum_column_rounded_def getNcol_def getNseq_def getAlphabet_def Let_def h a
        upt_small)
  with m h a show ?thesis by simp
qed

text \<open>
  Claim C5 (after the pseudo-count adjustment the entries \<open>proba[x][a]\<close> of every
  column sum to exactly 1) fails on the alignment of the three rows \<open>AA\<close>, \<open>AA\<close>
  and \<open>AC\<close>.  Its alphabet is \<open>AC\<close> and column 1 holds both symbols, so no entry is
  a pseudo-count and \<open>pseudo_counts\<close> is 0.  The weights are \<open>(1/3 + 1/4) / 2\<close>
  twice and \<open>(1/3 + 1/2) / 2\<close>; \<open>1/3\<close> is rounded down, both sums are ties and go
  to the even significand, and the two entries of the column are
  \<open>2627099782632789 / 2 ^ 52\<close> and \<open>3752999689475413 / 2 ^ 53\<close>.  Their sum is
  \<open>1 - 2 ^ -53\<close>, as a real number and as the \<open>double\<close> that adding them gives.
\<close>

theorem C5_counterexample:
  "\<not> isl (Msa_ctor ''>a\<newline>AA\<newline>>b\<newline>AA\<newline>>c\<newline>AC\<newline>'')
   \<and> alphabet (projr (Msa_ctor ''>a\<newline>AA\<newline>>b\<newline>AA\<newline>>c\<newline>AC\<newline>'')) = ''AC''
   \<and> proba (fst (JensenStat_calculateStatistic_rounded
                   (projr (Msa_ctor ''>a\<newline>AA\<newline>>b\<newline>AA\<newline>>c\<newline>AC\<newline>''))
                   \<lparr>console = [], writable = True, out_file = None\<rparr>)) ! 1
       = [Fin (2627099782632789 / 2 ^ 52), Fin (3752999689475413 / 2 ^ 53)]
   \<and> fsum [Fin (2627099782632789 / 2 ^ 52), Fin (3752999689475413 / 2 ^ 53)] = Fin (1 - 1 / 2 ^ 53)
   \<and> dadd (dadd (Fin 0) (Fin (2627099782632789 / 2 ^ 52))) (Fin (3752999689475413 / 2 ^ 53))
       = Fin (1 - 1 / 2 ^ 53)
   \<and> Fin (1 - 1 / 2 ^ 53) \<noteq> Fin 1"
proof -
  let ?t = "''>a\<newline>AA\<newline>>b\<newline>AA\<newline>>c\<newline>AC\<newline>''"
  obtain m where m: "Msa_ctor ?t = Inr m" using Msa_ctor_total by blast
  note f = example_model [OF m]
  have "proba (fst (JensenStat_calculateStatistic_rounded m
                   \<lparr>console = [], writable = True, out_file = None\<rparr>)) ! 1
          = JensenStat_column_rounded m
              (map (JensenStat_calcSeqWeight_rounded m) [0..<getNseq m]) 1"
    by (simp add: JensenStat_calculateStatistic_rounded_def getNcol_def Let_def f)
  also have "\<dots> = [Fin (2627099782632789 / 2 ^ 52), Fin (3752999689475413 / 2 ^ 53)]"
    unfolding example_weights [OF m] example_column [OF m] by simp
  finally have c: "proba (fst (JensenStat_calculateStatistic_rounded m
                   \<lparr>console = [], writable = True, out_file = None\<rparr>)) ! 1
          = [Fin (2627099782632789 / 2 ^ 52), Fin (3752999689475413 / 2 ^ 53)]" .
  have s: "fsum [Fin (2627099782632789 / 2 ^ 52), Fin (3752999689475413 / 2 ^ 53)]
             = Fin (1 - 1 / 2 ^ 53)"
    by (simp add: fsum_def)
  have d1: "dadd (Fin 0) (Fin (2627099782632789 / 2 ^ 52)) = Fin (2627099782632789 / 2 ^ 52)"
    apply (simp add: dadd_def)
    by (subst round_double_eval [where k = 53]) (simp_all add: round_even_def)
  have d2: "dadd (Fin (2627099782632789 / 2 ^ 52)) (Fin (3752999689475413 / 2 ^ 53))
              = Fin (1 - 1 / 2 ^ 53)"
    apply (simp add: dadd_def)
    by (subst round_double_eval [where k = 53]) (simp_all add: round_even_def)
  from m c f(4) s d1 d2 show ?thesis by simp
qed

text \<open>
  Claim C5, up to the rounding.  For the model the constructor builds, with at
  least one row and fewer than \<open>2 ^ 31\<close> columns (\<open>ncol\<close> is an \<open>int\<close>), and every
  column \<open>x\<close>: the row \<open>proba[x]\<close> has one finite entry for each symbol of the
  alphabet; the entry of a symbol absent from the column is \<open>pow(10.0,-6.0)\<close>;
  every entry is within \<open>(ncol + nseq + 3) / 2 ^ 51\<close> of the adjusted probability
  of its symbol; the adjusted probabilities sum to 1; and the sum of the
  entries is within \<open>(ncol + nseq + 3) / 2 ^ 51\<close> of 1.
\<close>

theorem C5_jensen_column_sum:
  assumes "Msa_ctor text = Inr m" and "rect m" and "1 \<le> nseq m" and "x < ncol m"
    and "ncol m < 2 ^ 31"
  shows "\<exists>row. proba (fst (JensenStat_calculateStatistic_rounded m w)) ! x = map Fin row
      \<and> length row = length (alphabet m)
      \<and> (\<forall>a<length (alphabet m).
            \<bar>row ! a - adjusted_proba m x a\<bar> \<le> real (ncol m + nseq m + 3) / 2 ^ 51)
      \<and> (\<forall>a<length (alphabet m).
            weighted_proba m x (alphabet m ! a) = 0 \<longrightarrow> Fin (row ! a) = pseudo_rounded)
      \<and> (\<Sum>a<length (alphabet m). adjusted_proba m x a) = 1
      \<and> \<bar>sum_list row - 1\<bar> \<le> real (ncol m + nseq m + 3) / 2 ^ 51"
proof -
  from assms(3) have n: "0 < nseq m" by simp
  have "proba (fst (JensenStat_calculateStatistic_rounded m w)) ! x
          = JensenStat_column_rounded m
              (map (JensenStat_calcSeqWeight_rounded m) [0..<getNseq m]) x"
    using assms(4) by (simp add: JensenStat_calculateStatistic_rounded_def getNcol_def Let_def)
  with jensen_column_rounded [OF assms(1) n assms(4,5)] adjusted_proba_sum(2) [OF assms(1,4) n]
  show ?thesis by (simp only:) blast
qed

theorem C5_witness:
  "\<exists>m row. Msa_ctor ''>a\<newline>AA\<newline>>b\<newline>AA\<newline>>c\<newline>AC\<newline>'' = Inr m
       \<and> rect m \<and> 1 \<le> nseq m \<and> 0 < ncol m \<and> ncol m < 2 ^ 31
       \<and> proba (fst (JensenStat_calculateStatistic_rounded m
                        \<lparr>console = [], writable = True, out_file = None\<rparr>)) ! 0 = map Fin row
       \<and> length row = 2
       \<and> \<bar>row ! 0 - adjusted_proba m 0 0\<bar> \<le> 8 / 2 ^ 51
       \<and> \<bar>row ! 1 - adjusted_proba m 0 1\<bar> \<le> 8 / 2 ^ 51
       \<and> weighted_proba m 0 (alphabet m ! 1) = 0
       \<and> Fin (row ! 1) = pseudo_rounded
       \<and> adjusted_proba m 0 0 + adjusted_proba m 0 1 = 1
       \<and> \<bar>sum_list row - 1\<bar> \<le> 8 / 2 ^ 51"
proof -
  let ?t = "''>a\<newline>AA\<newline>>b\<newline>AA\<newline>>c\<newline>AC\<newline>''"
  obtain m where m: "Msa_ctor ?t = Inr m" using Msa_ctor_total by blast
  note f = example_model [OF m]
  have h: "rect m" "1 \<le> nseq m" "0 < ncol m" "ncol m < 2 ^ 31"
    by (simp_all add: f rect_def)
  from C5_jensen_column_sum [OF m h(1,2,3,4), of "\<lparr>console = [], writable = True, out_file = None\<rparr>"]
  obtain row where r: "proba (fst (JensenStat_calculateStatistic_rounded m
                        \<lparr>console = [], writable = True, out_file = None\<rparr>)) ! 0 = map Fin row"
    "length row = length (alphabet m)"
    "\<forall>a<length (alphabet m). \<bar>row ! a - adjusted_proba m 0 a\<bar> \<le> real (ncol m + nseq m + 3) / 2 ^ 51"
    "\<forall>a<length (alphabet m). weighted_proba m 0 (alphabet m ! a) = 0 \<longrightarrow> Fin (row ! a) = pseudo_rounded"
    "(\<Sum>a<length (alphabet m). adjusted_proba m 0 a) = 1"
    "\<bar>sum_list row - 1\<bar> \<le> real (ncol m + nseq m + 3) / 2 ^ 51" by blast
  from r(2) have l: "length row = 2" by (simp add: f)
  from r(3) have e: "\<bar>row ! 0 - adjusted_proba m 0 0\<bar> \<le> 8 / 2 ^ 51"
    "\<bar>row ! 1 - adjusted_proba m 0 1\<bar> \<le> 8 / 2 ^ 51" by (simp_all add: f)
  have "getCol m 0 = ''AAA''" by (simp add: getCol_def f upt_small)
  then have z: "weighted_proba m 0 (alphabet m ! 1) = 0"
    by (intro weighted_proba_absent) (simp add: f)
  with r(4) have p: "Fin (row ! 1) = pseudo_rounded" by (simp add: f)
  from r(5) have s: "adjusted_proba m 0 0 + adjusted_proba m 0 1 = 1"
    by (simp add: f lessThan_nat_numeral lessThan_Suc)
  from r(6) have b: "\<bar>sum_list row - 1\<bar> \<le> 8 / 2 ^ 51" by (simp add: f)
  from m h r(1) l e z p s b show ?thesis by blast
qed

section \<open>Further properties\<close>

text \<open>
  For every text with a header line that the reading loop meets (so that a
  name is stored), the names and the sequences kept are equal in number, and
  at most 500.
\<close>

theorem read_file_with_header:
  assumes "fst (read_file text) \<noteq> []"
  shows "length (fst (read_file text)) = length (snd (read_file text))
       \<and> length (fst (read_file text)) \<le> 500"
proof -
  obtain names seqs where r: "read_file text = (names, seqs)" by (cases "read_file text") auto
  with assms have "names \<noteq> []" by simp
  from read_file_lengths(3) [OF r this] read_file_lengths(1) [OF r] r
  show ?thesis by (simp add: nb_seq_limits_def)
qed

theorem read_file_with_header_witness:
  "fst (read_file ''>a\<newline>AC\<newline>>b\<newline>AG\<newline>'') \<noteq> []
   \<and> length (fst (read_file ''>a\<newline>AC\<newline>>b\<newline>AG\<newline>''))
       = length (snd (read_file ''>a\<newline>AC\<newline>>b\<newline>AG\<newline>''))
   \<and> length (fst (read_file ''>a\<newline>AC\<newline>>b\<newline>AG\<newline>'')) \<le> 500"
proof -
  have "fst (read_file ''>a\<newline>AC\<newline>>b\<newline>AG\<newline>'') \<noteq> []"
    by (simp add: read_eval)
  from this read_file_with_header [OF this] show ?thesis by blast
qed

text \<open>
  For a model with at least one row whose alphabet does not have exactly two
  symbols, a column that holds one symbol in every row has entropy exactly 0:
  the comparison \<open>entropy[col] == 0.0\<close> standing where an assignment was meant
  changes nothing, since nothing has been accumulated when it is reached.
\<close>

theorem single_symbol_column_entropy:
  assumes "Msa_ctor text = Inr m" and "rect m" and "0 < nseq m" and "col < ncol m"
    and "set (getCol m col) = {c}" and "length (alphabet m) \<noteq> 2"
  shows "entropy m ! col = Fin 0"
  using entropy_single_symbol [OF assms(1,3,4,5)] assms(6) by simp

theorem single_symbol_column_entropy_witness:
  "\<exists>m. Msa_ctor ''>a\<newline>AC\<newline>>b\<newline>AG\<newline>'' = Inr m
       \<and> rect m \<and> 0 < nseq m \<and> 0 < ncol m \<and> set (getCol m 0) = {CHR ''A''}
       \<and> length (alphabet m) \<noteq> 2 \<and> entropy m ! 0 = Fin 0"
proof -
  let ?t = "''>a\<newline>AC\<newline>>b\<newline>AG\<newline>''"
  obtain m where m: "Msa_ctor ?t = Inr m" using Msa_ctor_total by blast
  have r: "Msa_read ?t = Msa_init [''a'', ''b''] [''AC'', ''AG'']"
    by (simp add: Msa_read_def read_eval)
  note f = Msa_ctor_rows [OF m, unfolded r]
  have a: "alphabet m = ''ACG''"
    using Msa_analyse_fields(5) [OF m [unfolded Msa_ctor_def r]]
    by (simp add: cells_def getCol_def Msa_init_def upper_case_def toupper_def add_symbol_def
        str_find_def npos_def)
  have c: "set (getCol m 0) = {CHR ''A''}"
    by (simp add: f getCol_def Msa_init_def upper_case_def toupper_def)
  have h: "rect m" "0 < nseq m" "0 < ncol m"
    by (simp_all add: f rect_def Msa_init_def upper_case_def)
  have k: "length (alphabet m) \<noteq> 2" by (simp add: a)
  from single_symbol_column_entropy [OF m h c k] m h c k show ?thesis by blast
qed

text \<open>
  The alignment of the four rows \<open>AC\<close>, \<open>AC\<close>, \<open>AG\<close> and \<open>TG\<close>, whose alphabet is
  \<open>ATCG\<close>.  Column 1 holds \<open>C\<close> and \<open>G\<close>: the entries of \<open>A\<close> and \<open>T\<close> are the
  pseudo-count \<open>pow(10.0,-6.0)\<close>, \<open>pseudo_counts\<close> is the pseudo-count again, and the
  two other entries are the rounded sums less that.  Added in \<open>double\<close>, in the
  order of the alphabet, the four entries give \<open>1 - 2 ^ -53\<close>.
\<close>

lemma upt_4: "[0..<4] = [0, 1, 2, 3]"
  by (simp add: upt_rec)

lemma four_rows_model:
  assumes m: "Msa_ctor ''>a\<newline>AC\<newline>>b\<newline>AC\<newline>>c\<newline>AG\<newline>>d\<newline>TG\<newline>'' = Inr m"
  shows "mali_seq m = [''AC'', ''AC'', ''AG'', ''TG'']" "nseq m = 4" "ncol m = 2"
    "alphabet m = ''ATCG''" "nb_type m = [2, 2]"
proof -
  let ?t = "''>a\<newline>AC\<newline>>b\<newline>AC\<newline>>c\<newline>AG\<newline>>d\<newline>TG\<newline>''"
  have r: "Msa_read ?t = Msa_init [''a'', ''b'', ''c'', ''d''] [''AC'', ''AC'', ''AG'', ''TG'']"
    by (simp add: Msa_read_def read_eval)
  note f = Msa_ctor_rows [OF m, unfolded r]
  show "mali_seq m = [''AC'', ''AC'', ''AG'', ''TG'']" "nseq m = 4" "ncol m = 2"
    by (simp_all add: f Msa_init_def upper_case_def toupper_def)
  show "alphabet m = ''ATCG''"
    using Msa_analyse_fields(5) [OF m [unfolded Msa_ctor_def r]]
    by (simp add: cells_def getCol_def Msa_init_def upper_case_def toupper_def add_symbol_def
        str_find_def npos_def upt_4)
  show "nb_type m = [2, 2]"
    using Msa_analyse_fields(8) [OF m [unfolded Msa_ctor_def r]]
    by (simp add: getCol_def Msa_init_def upper_case_def toupper_def add_symbol_def
        str_find_def npos_def upt_small upt_4)
qed

lemma four_rows_op1: "ddiv (Fin 1) (Fin 6) = Fin (6004799503160661 / 36028797018963968)"
  apply (simp add: ddiv_def dadd_def dsub_def dmul_def fsub_def)
  by (subst round_double_eval [where k = 55]) (simp_all add: round_even_def)

lemma four_rows_op2: "dadd (Fin 0) (Fin (6004799503160661 / 36028797018963968)) = Fin (6004799503160661 / 36028797018963968)"
  apply (simp add: ddiv_def dadd_def dsub_def dmul_def fsub_def)
  by (subst round_double_eval [where k = 55]) (simp_all add: round_even_def)

lemma four_rows_op3: "ddiv (Fin 1) (Fin 4) = Fin (1 / 4)"
  apply (simp add: ddiv_def dadd_def dsub_def dmul_def fsub_def)
  by (subst round_double_eval [where k = 54]) (simp_all add: round_even_def)

lemma four_rows_op4: "dadd (Fin (6004799503160661 / 36028797018963968)) (Fin (1 / 4)) = Fin (3752999689475413 / 9007199254740992)"
  apply (simp add: ddiv_def dadd_def dsub_def dmul_def fsub_def)
  by (subst round_double_eval [where k = 54]) (simp_all add: round_even_def)

lemma four_rows_op5: "ddiv (Fin (3752999689475413 / 9007199254740992)) (Fin 2) = Fin (3752999689475413 / 18014398509481984)"
  apply (simp add: ddiv_def dadd_def dsub_def dmul_def fsub_def)
  by (subst round_double_eval [where k = 55]) (simp_all add: round_even_def)

lemma four_rows_op6: "ddiv (Fin 1) (Fin 2) = Fin (1 / 2)"
  apply (simp add: ddiv_def dadd_def dsub_def dmul_def fsub_def)
  by (subst round_double_eval [where k = 53]) (simp_all add: round_even_def)

lemma four_rows_op7: "dadd (Fin 0) (Fin (1 / 2)) = Fin (1 / 2)"
  apply (simp add: ddiv_def dadd_def dsub_def dmul_def fsub_def)
  by (subst round_double_eval [where k = 53]) (simp_all add: round_even_def)

lemma four_rows_op8: "dadd (Fin (1 / 2)) (Fin (1 / 4)) = Fin (3 / 4)"
  apply (simp add: ddiv_def dadd_def dsub_def dmul_def fsub_def)
  by (subst round_double_eval [where k = 53]) (simp_all add: round_even_def)

lemma four_rows_op9: "ddiv (Fin (3 / 4)) (Fin 2) = Fin (3 / 8)"
  apply (simp add: ddiv_def dadd_def dsub_def dmul_def fsub_def)
  by (subst round_double_eval [where k = 54]) (simp_all add: round_even_def)

lemma four_rows_op10: "dadd (Fin 0) (Fin (3752999689475413 / 18014398509481984)) = Fin (3752999689475413 / 18014398509481984)"
  apply (simp add: ddiv_def dadd_def dsub_def dmul_def fsub_def)
  by (subst round_double_eval [where k = 55]) (simp_all add: round_even_def)

lemma four_rows_op11: "dadd (Fin (3752999689475413 / 18014398509481984)) (Fin (3752999689475413 / 18014398509481984)) = Fin (3752999689475413 / 9007199254740992)"
  apply (simp add: ddiv_def dadd_def dsub_def dmul_def fsub_def)
  by (subst round_double_eval [where k = 54]) (simp_all add: round_even_def)

lemma four_rows_op12: "dadd (Fin (3752999689475413 / 18014398509481984)) (Fin (3 / 8)) = Fin (2627099782632789 / 4503599627370496)"
  apply (simp add: ddiv_def dadd_def dsub_def dmul_def fsub_def)
  by (subst round_double_eval [where k = 53]) (simp_all add: round_even_def)

lemma four_rows_op13: "dmul (Fin 2) (Fin (4722366482869645 / 4722366482869645213696)) = Fin (4722366482869645 / 2361183241434822606848)"
  apply (simp add: ddiv_def dadd_def dsub_def dmul_def fsub_def)
  by (subst round_double_eval [where k = 71]) (simp_all add: round_even_def)

lemma four_rows_op14: "ddiv (Fin (4722366482869645 / 2361183241434822606848)) (Fin 2) = Fin (4722366482869645 / 4722366482869645213696)"
  apply (simp add: ddiv_def dadd_def dsub_def dmul_def fsub_def)
  by (subst round_double_eval [where k = 72]) (simp_all add: round_even_def)

lemma four_rows_op15: "dsub (Fin (3752999689475413 / 9007199254740992)) (Fin (4722366482869645 / 4722366482869645213696)) = Fin (7505981364552317 / 18014398509481984)"
  apply (simp add: ddiv_def dadd_def dsub_def dmul_def fsub_def)
  by (subst round_double_eval [where k = 54]) (simp_all add: round_even_def)

lemma four_rows_op16: "dsub (Fin (2627099782632789 / 4503599627370496)) (Fin (4722366482869645 / 4722366482869645213696)) = Fin (5254190558066323 / 9007199254740992)"
  apply (simp add: ddiv_def dadd_def dsub_def dmul_def fsub_def)
  by (subst round_double_eval [where k = 53]) (simp_all add: round_even_def)

lemma four_rows_op17: "dadd (Fin 0) (Fin (4722366482869645 / 4722366482869645213696)) = Fin (4722366482869645 / 4722366482869645213696)"
  apply (simp add: ddiv_def dadd_def dsub_def dmul_def fsub_def)
  by (subst round_double_eval [where k = 72]) (simp_all add: round_even_def)

lemma four_rows_op18: "dadd (Fin (4722366482869645 / 4722366482869645213696)) (Fin (4722366482869645 / 4722366482869645213696)) = Fin (4722366482869645 / 2361183241434822606848)"
  apply (simp add: ddiv_def dadd_def dsub_def dmul_def fsub_def)
  by (subst round_double_eval [where k = 71]) (simp_all add: round_even_def)

lemma four_rows_op19: "dadd (Fin (4722366482869645 / 2361183241434822606848)) (Fin (7505981364552317 / 18014398509481984)) = Fin (938252174168667 / 2251799813685248)"
  apply (simp add: ddiv_def dadd_def dsub_def dmul_def fsub_def)
  by (subst round_double_eval [where k = 54]) (simp_all add: round_even_def)

lemma four_rows_op20: "dadd (Fin (938252174168667 / 2251799813685248)) (Fin (5254190558066323 / 9007199254740992)) = Fin (9007199254740991 / 9007199254740992)"
  apply (simp add: ddiv_def dadd_def dsub_def dmul_def fsub_def)
  by (subst round_double_eval [where k = 53]) (simp_all add: round_even_def)

lemmas four_rows_ops = four_rows_op1 four_rows_op2 four_rows_op3 four_rows_op4 four_rows_op5 four_rows_op6 four_rows_op7 four_rows_op8 four_rows_op9 four_rows_op10 four_rows_op11 four_rows_op12 four_rows_op13 four_rows_op14 four_rows_op15 four_rows_op16 four_rows_op17 four_rows_op18 four_rows_op19 four_rows_op20


lemma four_rows_pseudo: "pseudo_rounded = Fin (4722366482869645 / 4722366482869645213696)"
  apply (simp add: pseudo_rounded_def pseudo_def)
  by (subst round_double_eval [where k = 72]) (simp_all add: round_even_def)

lemma four_rows_weights:
  assumes m: "Msa_ctor ''>a\<newline>AC\<newline>>b\<newline>AC\<newline>>c\<newline>AG\<newline>>d\<newline>TG\<newline>'' = Inr m"
  shows "map (JensenStat_calcSeqWeight_rounded m) [0..<getNseq m] = [Fin (3752999689475413 / 2 ^ 54), Fin (3752999689475413 / 2 ^ 54),
            Fin (3752999689475413 / 2 ^ 54), Fin (3 / 8)]"
  by (simp add: four_rows_model [OF m] JensenStat_calcSeqWeight_rounded_def getNcol_def getNseq_def
      getNtype_def getSymbol_def upt_small upt_4 of_count_def four_rows_ops)

lemma four_rows_column:
  assumes m: "Msa_ctor ''>a\<newline>AC\<newline>>b\<newline>AC\<newline>>c\<newline>AG\<newline>>d\<newline>TG\<newline>'' = Inr m"
  shows "JensenStat_column_rounded m [Fin (3752999689475413 / 2 ^ 54), Fin (3752999689475413 / 2 ^ 54),
            Fin (3752999689475413 / 2 ^ 54), Fin (3 / 8)] 1 = [Fin (4722366482869645 / 2 ^ 72), Fin (4722366482869645 / 2 ^ 72),
          Fin (7505981364552317 / 2 ^ 54), Fin (5254190558066323 / 2 ^ 53)]"
  by (simp add: four_rows_model [OF m] JensenStat_column_rounded_def JensenStat_sum_column_rounded_def
      getNcol_def getNseq_def getAlphabet_def getNtype_def getSymbol_def upt_small upt_4
      of_count_def four_rows_ops four_rows_pseudo Let_def feq_def)

theorem jensen_column_AC_AC_AG_TG:
  "\<not> isl (Msa_ctor ''>a\<newline>AC\<newline>>b\<newline>AC\<newline>>c\<newline>AG\<newline>>d\<newline>TG\<newline>'')
   \<and> alphabet (projr (Msa_ctor ''>a\<newline>AC\<newline>>b\<newline>AC\<newline>>c\<newline>AG\<newline>>d\<newline>TG\<newline>'')) = ''ATCG''
   \<and> proba (fst (JensenStat_calculateStatistic_rounded
                   (projr (Msa_ctor ''>a\<newline>AC\<newline>>b\<newline>AC\<newline>>c\<newline>AG\<newline>>d\<newline>TG\<newline>''))
                   \<lparr>console = [], writable = True, out_file = None\<rparr>)) ! 1
       = [Fin (4722366482869645 / 2 ^ 72), Fin (4722366482869645 / 2 ^ 72),
          Fin (7505981364552317 / 2 ^ 54), Fin (5254190558066323 / 2 ^ 53)]
   \<and> dadd (dadd (dadd (dadd (Fin 0) (Fin (4722366482869645 / 2 ^ 72))) (Fin (4722366482869645 / 2 ^ 72)))
              (Fin (7505981364552317 / 2 ^ 54))) (Fin (5254190558066323 / 2 ^ 53))
       = Fin (1 - 1 / 2 ^ 53)
   \<and> fsum [Fin (4722366482869645 / 2 ^ 72), Fin (4722366482869645 / 2 ^ 72),
            Fin (7505981364552317 / 2 ^ 54), Fin (5254190558066323 / 2 ^ 53)]
       = Fin (1 - 266867 / 2 ^ 71)"
proof -
  let ?t = "''>a\<newline>AC\<newline>>b\<newline>AC\<newline>>c\<newline>AG\<newline>>d\<newline>TG\<newline>''"
  obtain m where m: "Msa_ctor ?t = Inr m" using Msa_ctor_total by blast
  note f = four_rows_model [OF m]
  have "proba (fst (JensenStat_calculateStatistic_rounded m
                   \<lparr>console = [], writable = True, out_file = None\<rparr>)) ! 1
          = JensenStat_column_rounded m
              (map (JensenStat_calcSeqWeight_rounded m) [0..<getNseq m]) 1"
    by (simp add: JensenStat_calculateStatistic_rounded_def getNcol_def Let_def f)
  also have "\<dots> = [Fin (4722366482869645 / 2 ^ 72), Fin (4722366482869645 / 2 ^ 72),
          Fin (7505981364552317 / 2 ^ 54), Fin (5254190558066323 / 2 ^ 53)]"
    unfolding four_rows_weights [OF m] four_rows_column [OF m] by simp
  finally have c: "proba (fst (JensenStat_calculateStatistic_rounded m
                   \<lparr>console = [], writable = True, out_file = None\<rparr>)) ! 1 = [Fin (4722366482869645 / 2 ^ 72), Fin (4722366482869645 / 2 ^ 72),
          Fin (7505981364552317 / 2 ^ 54), Fin (5254190558066323 / 2 ^ 53)]" .
  have s: "dadd (dadd (dadd (dadd (Fin 0) (Fin (4722366482869645 / 2 ^ 72))) (Fin (4722366482869645 / 2 ^ 72)))
              (Fin (7505981364552317 / 2 ^ 54))) (Fin (5254190558066323 / 2 ^ 53))
       = Fin (1 - 1 / 2 ^ 53)"
    by (simp add: four_rows_ops)
  have e: "fsum [Fin (4722366482869645 / 2 ^ 72), Fin (4722366482869645 / 2 ^ 72),
            Fin (7505981364552317 / 2 ^ 54), Fin (5254190558066323 / 2 ^ 53)]
       = Fin (1 - 266867 / 2 ^ 71)"
    by (simp add: fsum_def)
  from m c f(4) s e show ?thesis by simp
qed

end
